theory Spec2Isabelle
  imports Main "HOL-Library.Word"
begin

section \<open>Data model of \<^verbatim>\<open>go/pkg/bertymessenger/replay.go\<close>\<close>

text \<open>
  \<^verbatim>\<open>replayLogsToDB\<close> talks to three collaborators: the protocol client, the wrapped
  database and the event handler.  None of them is pure, so the embedding threads an
  abstract world state \<open>'w\<close> through every call and records every call, with what it
  returned, in a trace.

  A Go \<^verbatim>\<open>[]byte\<close> is a list of 8-bit words; \<^verbatim>\<open>bytes.Equal\<close> is equality of such lists
  (it does not tell \<^verbatim>\<open>nil\<close> from the empty slice, and neither does the list).
\<close>

type_synonym bytes = "8 word list"

text \<open>
  The error codes of package \<^verbatim>\<open>errcode\<close> that \<^verbatim>\<open>replay.go\<close> names.  \<open>TODO\<close> is the
  package's placeholder code.
\<close>

datatype ErrCode =
    TODO
  | ErrDBWrite
  | ErrDBRead
  | ErrDeserialization
  | ErrGroupActivate
  | ErrGroupDeactivate
  | ErrReplayProcessGroupMetadata
  | ErrReplayProcessGroupMessage
  | ErrEventListMetadata
  | ErrEventListMessage

text \<open>
  A non-nil Go \<^verbatim>\<open>error\<close> value: \<^verbatim>\<open>io.EOF\<close>, an error of a collaborator (transport, store,
  protobuf, handler), or an error code wrapped around an inner error.  The inner error
  of a wrapped error may be \<^verbatim>\<open>nil\<close>; a Go \<^verbatim>\<open>error\<close> that may be \<^verbatim>\<open>nil\<close> is an
  \<open>error option\<close>.
\<close>

datatype error =
    EOF
  | Foreign string
  | WithCode ErrCode "error option"

text \<open>
  Modelled from the spec: \<^verbatim>\<open>errcode.ErrCode.Wrap\<close> is not among the sources.  The spec's
  taxonomy makes every error "a distinct, identifiable kind wrapping the underlying
  transport/store error": the result is an error value carrying the code and the inner
  error, whatever the inner error is.
\<close>

definition Wrap :: "ErrCode \<Rightarrow> error option \<Rightarrow> error option" where
  "Wrap code inner = Some (WithCode code inner)"

text \<open>The codes of an error, outermost first.\<close>

fun codes :: "error \<Rightarrow> ErrCode list" where
  "codes EOF = []"
| "codes (Foreign s) = []"
| "codes (WithCode c None) = [c]"
| "codes (WithCode c (Some e)) = c # codes e"

text \<open>
  The messages the code handles.  Of the configuration reply only the account group's
  public key is read, of a conversation only its (base64) public key, of a message
  event only its payload; a metadata event is handed on unread.
\<close>

record InstanceGetConfiguration_Reply =
  AccountGroupPK :: bytes

record Conversation =
  PublicKey :: string

type_synonym GroupMetadataEvent = bytes

record GroupMessageEvent =
  Message :: bytes

datatype AppMessage = AppMessage bytes

text \<open>
  A server stream opened with \<^verbatim>\<open>UntilNow: true\<close>, which asks for the log up to the moment
  of the call: the finitely many items its \<^verbatim>\<open>Recv\<close> delivers, and then the error \<^verbatim>\<open>Recv\<close>
  returns in place of a further item (\<open>EOF\<close> at the clean end of the log, a transport
  error otherwise).
\<close>

type_synonym 'a event_stream = "'a list \<times> error"

text \<open>
  The collaborators.  A call that changes or reads the outside world takes the world
  and returns the new one with its result; a Go result \<^verbatim>\<open>(x, err)\<close> is a sum with the
  error on the left.  \<open>subCtxErr\<close> is \<^verbatim>\<open>subCtx.Err() != nil\<close>.  The helpers
  \<^verbatim>\<open>b64EncodeBytes\<close> and \<^verbatim>\<open>b64DecodeBytes\<close> and protobuf's \<^verbatim>\<open>Unmarshal\<close> are pure and are
  parameters as well.
\<close>

record 'w env =
  InstanceGetConfiguration :: "'w \<Rightarrow> (error + InstanceGetConfiguration_Reply) \<times> 'w"
  addAccount :: "string \<Rightarrow> string \<Rightarrow> 'w \<Rightarrow> error option \<times> 'w"
  getAllConversations :: "'w \<Rightarrow> (error + Conversation list) \<times> 'w"
  ActivateGroup :: "bytes \<Rightarrow> bool \<Rightarrow> 'w \<Rightarrow> error option \<times> 'w"
  DeactivateGroup :: "bytes \<Rightarrow> 'w \<Rightarrow> error option \<times> 'w"
  GroupMetadataList :: "bytes \<Rightarrow> bool \<Rightarrow> 'w \<Rightarrow> (error + GroupMetadataEvent event_stream) \<times> 'w"
  GroupMessageList :: "bytes \<Rightarrow> bool \<Rightarrow> 'w \<Rightarrow> (error + GroupMessageEvent event_stream) \<times> 'w"
  subCtxErr :: "'w \<Rightarrow> bool"
  handleMetadataEvent :: "GroupMetadataEvent \<Rightarrow> 'w \<Rightarrow> error option \<times> 'w"
  handleAppMessage :: "string \<Rightarrow> GroupMessageEvent \<Rightarrow> AppMessage \<Rightarrow> 'w \<Rightarrow> error option \<times> 'w"
  Unmarshal :: "bytes \<Rightarrow> error + AppMessage"
  b64EncodeBytes :: "bytes \<Rightarrow> string"
  b64DecodeBytes :: "string \<Rightarrow> error + bytes"

text \<open>
  The trace: one event per call, in program order, with the arguments and the result.
  The events of a log drain carry, as their first argument, the \<^verbatim>\<open>groupPK\<close> the drainer
  was called with; the Go calls \<^verbatim>\<open>subCtx.Err\<close>, \<^verbatim>\<open>Recv\<close>, \<^verbatim>\<open>proto.Unmarshal\<close> and
  \<^verbatim>\<open>handleMetadataEvent\<close> do not take it, and \<^verbatim>\<open>handleAppMessage\<close> takes its base64 form.
\<close>

datatype event =
    InstanceGetConfiguration_call "error + InstanceGetConfiguration_Reply"
  | addAccount_call string string "error option"
  | getAllConversations_call "error + Conversation list"
  | b64DecodeBytes_call string "error + bytes"
  | ActivateGroup_call bytes bool "error option"
  | DeactivateGroup_call bytes "error option"
  | GroupMetadataList_call bytes bool "error + GroupMetadataEvent event_stream"
  | metaList_ctxErr bytes bool
  | metaList_Recv bytes "error + GroupMetadataEvent"
  | handleMetadataEvent_call bytes GroupMetadataEvent "error option"
  | GroupMessageList_call bytes bool "error + GroupMessageEvent event_stream"
  | msgList_ctxErr bytes bool
  | msgList_Recv bytes "error + GroupMessageEvent"
  | Unmarshal_call bytes bytes "error + AppMessage"
  | handleAppMessage_call bytes string GroupMessageEvent AppMessage "error option"

text \<open>What a piece of the program returns: its error, the new world, its trace.\<close>

type_synonym 'w outcome = "error option \<times> 'w \<times> event list"

text \<open>
  \<open>andThen m k\<close> is Go's sequencing: when \<open>m\<close> returned an error the function returns
  it, otherwise \<open>k\<close> runs in the world \<open>m\<close> left.  \<open>wrapWith c m\<close> is
  \<^verbatim>\<open>if err := m; err != nil { return c.Wrap(err) }\<close>.
\<close>

definition andThen :: "'w outcome \<Rightarrow> ('w \<Rightarrow> 'w outcome) \<Rightarrow> 'w outcome" where
  "andThen m k =
     (case m of
        (Some err, w, t) \<Rightarrow> (Some err, w, t)
      | (None, w, t) \<Rightarrow> (case k w of (r, w', t') \<Rightarrow> (r, w', t @ t')))"

definition wrapWith :: "ErrCode \<Rightarrow> 'w outcome \<Rightarrow> 'w outcome" where
  "wrapWith code m =
     (case m of
        (Some err, w, t) \<Rightarrow> (Wrap code (Some err), w, t)
      | (None, w, t) \<Rightarrow> (None, w, t))"

text \<open>A call whose only result is an error, with its event.\<close>

definition call :: "(error option \<Rightarrow> event) \<Rightarrow> ('w \<Rightarrow> error option \<times> 'w) \<Rightarrow> 'w \<Rightarrow> 'w outcome" where
  "call ev f w = (case f w of (r, w') \<Rightarrow> (r, w', [ev r]))"

section \<open>The log drainers\<close>

text \<open>
  The loop of \<^verbatim>\<open>processMetadataList\<close> (lines 107 to 122) over what is left of the
  stream.  In the cancellation branch the variable \<^verbatim>\<open>err\<close> is the one assigned by the
  \<^verbatim>\<open>GroupMetadataList\<close> call, which is \<^verbatim>\<open>nil\<close> once the loop is reached.  The deferred
  \<^verbatim>\<open>subCancel\<close> runs when the drainer has returned and changes nothing the replay reads.
\<close>

fun metaList_loop :: "'w env \<Rightarrow> bytes \<Rightarrow> GroupMetadataEvent list \<Rightarrow> error \<Rightarrow> 'w \<Rightarrow> 'w outcome" where
  "metaList_loop E groupPK [] fin w =
     (if subCtxErr E w then (Wrap ErrEventListMetadata None, w, [metaList_ctxErr groupPK True])
      else if fin = EOF then
        (None, w, [metaList_ctxErr groupPK False, metaList_Recv groupPK (Inl fin)])
      else
        (Wrap ErrEventListMetadata (Some fin), w,
         [metaList_ctxErr groupPK False, metaList_Recv groupPK (Inl fin)]))"
| "metaList_loop E groupPK (metadata # rest) fin w =
     (if subCtxErr E w then (Wrap ErrEventListMetadata None, w, [metaList_ctxErr groupPK True])
      else
        andThen (None, w, [metaList_ctxErr groupPK False, metaList_Recv groupPK (Inr metadata)])
        (\<lambda>w. andThen (call (handleMetadataEvent_call groupPK metadata) (handleMetadataEvent E metadata) w)
        (\<lambda>w. metaList_loop E groupPK rest fin w)))"

definition processMetadataList :: "'w env \<Rightarrow> bytes \<Rightarrow> 'w \<Rightarrow> 'w outcome" where
  "processMetadataList E groupPK w =
     (case GroupMetadataList E groupPK True w of
        (Inl err, w') \<Rightarrow>
          (Wrap ErrEventListMetadata (Some err), w', [GroupMetadataList_call groupPK True (Inl err)])
      | (Inr metaList, w') \<Rightarrow>
          andThen (None, w', [GroupMetadataList_call groupPK True (Inr metaList)])
            (metaList_loop E groupPK (fst metaList) (snd metaList)))"

text \<open>
  The loop of \<^verbatim>\<open>processMessageList\<close> (lines 142 to 162); \<open>groupPKStr\<close> is
  \<^verbatim>\<open>b64EncodeBytes(groupPK)\<close>.
\<close>

fun msgList_loop :: "'w env \<Rightarrow> bytes \<Rightarrow> string \<Rightarrow> GroupMessageEvent list \<Rightarrow> error \<Rightarrow> 'w \<Rightarrow> 'w outcome" where
  "msgList_loop E groupPK groupPKStr [] fin w =
     (if subCtxErr E w then (Wrap ErrEventListMessage None, w, [msgList_ctxErr groupPK True])
      else if fin = EOF then
        (None, w, [msgList_ctxErr groupPK False, msgList_Recv groupPK (Inl fin)])
      else
        (Wrap ErrEventListMessage (Some fin), w,
         [msgList_ctxErr groupPK False, msgList_Recv groupPK (Inl fin)]))"
| "msgList_loop E groupPK groupPKStr (message # rest) fin w =
     (if subCtxErr E w then (Wrap ErrEventListMessage None, w, [msgList_ctxErr groupPK True])
      else
        (case Unmarshal E (Message message) of
           Inl err \<Rightarrow>
             (Wrap ErrDeserialization (Some err), w,
              [msgList_ctxErr groupPK False, msgList_Recv groupPK (Inr message),
               Unmarshal_call groupPK (Message message) (Inl err)])
         | Inr appMsg \<Rightarrow>
             andThen (None, w,
               [msgList_ctxErr groupPK False, msgList_Recv groupPK (Inr message),
                Unmarshal_call groupPK (Message message) (Inr appMsg)])
             (\<lambda>w. andThen
                (wrapWith TODO
                   (call (handleAppMessage_call groupPK groupPKStr message appMsg)
                      (handleAppMessage E groupPKStr message appMsg) w))
             (\<lambda>w. msgList_loop E groupPK groupPKStr rest fin w))))"

definition processMessageList :: "'w env \<Rightarrow> bytes \<Rightarrow> 'w \<Rightarrow> 'w outcome" where
  "processMessageList E groupPK w =
     (case GroupMessageList E groupPK True w of
        (Inl err, w') \<Rightarrow>
          (Wrap ErrEventListMessage (Some err), w', [GroupMessageList_call groupPK True (Inl err)])
      | (Inr msgList, w') \<Rightarrow>
          andThen (None, w', [GroupMessageList_call groupPK True (Inr msgList)])
            (msgList_loop E groupPK (b64EncodeBytes E groupPK) (fst msgList) (snd msgList)))"

section \<open>The replay\<close>

text \<open>
  The body of the loop over the conversations (lines 51 to 86), and the loop.
  \<open>accountGroupPK\<close> is \<^verbatim>\<open>cfg.GetAccountGroupPK()\<close>.
\<close>

definition replayConversation :: "'w env \<Rightarrow> bytes \<Rightarrow> Conversation \<Rightarrow> 'w \<Rightarrow> 'w outcome" where
  "replayConversation E accountGroupPK conv w =
     (case b64DecodeBytes E (PublicKey conv) of
        Inl err \<Rightarrow>
          (Wrap ErrDeserialization (Some err), w, [b64DecodeBytes_call (PublicKey conv) (Inl err)])
      | Inr groupPK \<Rightarrow>
          andThen (None, w, [b64DecodeBytes_call (PublicKey conv) (Inr groupPK)])
          (\<lambda>w. andThen
             (if groupPK \<noteq> accountGroupPK then
                andThen
                  (wrapWith ErrGroupActivate
                     (call (ActivateGroup_call groupPK True) (ActivateGroup E groupPK True) w))
                  (\<lambda>w. wrapWith ErrReplayProcessGroupMetadata (processMetadataList E groupPK w))
              else (None, w, []))
          (\<lambda>w. andThen (wrapWith ErrReplayProcessGroupMessage (processMessageList E groupPK w))
          (\<lambda>w. if groupPK \<noteq> accountGroupPK then
                  wrapWith ErrGroupDeactivate
                    (call (DeactivateGroup_call groupPK) (DeactivateGroup E groupPK) w)
                else (None, w, [])))))"

fun replayConversations :: "'w env \<Rightarrow> bytes \<Rightarrow> Conversation list \<Rightarrow> 'w \<Rightarrow> 'w outcome" where
  "replayConversations E accountGroupPK [] w = (None, w, [])"
| "replayConversations E accountGroupPK (conv # convs) w =
     andThen (replayConversation E accountGroupPK conv w)
       (replayConversations E accountGroupPK convs)"

text \<open>
  \<^verbatim>\<open>replayLogsToDB\<close> (lines 23 to 90).  The account is added under the base64 form of
  the account group's key with the empty name.  \<^verbatim>\<open>newEventHandler\<close> only builds the
  handler whose two operations are in the environment.
\<close>

definition replayLogsToDB :: "'w env \<Rightarrow> 'w \<Rightarrow> 'w outcome" where
  "replayLogsToDB E w =
     (case InstanceGetConfiguration E w of
        (Inl err, w') \<Rightarrow> (Wrap TODO (Some err), w', [InstanceGetConfiguration_call (Inl err)])
      | (Inr cfg, w') \<Rightarrow>
          andThen (None, w', [InstanceGetConfiguration_call (Inr cfg)])
          (\<lambda>w. andThen
             (wrapWith ErrDBWrite
                (call (addAccount_call (b64EncodeBytes E (AccountGroupPK cfg)) [])
                   (addAccount E (b64EncodeBytes E (AccountGroupPK cfg)) []) w))
          (\<lambda>w. andThen
             (wrapWith ErrReplayProcessGroupMetadata (processMetadataList E (AccountGroupPK cfg) w))
          (\<lambda>w. case getAllConversations E w of
                  (Inl err, w') \<Rightarrow>
                    (Wrap ErrDBRead (Some err), w', [getAllConversations_call (Inl err)])
                | (Inr convs, w') \<Rightarrow>
                    andThen (None, w', [getAllConversations_call (Inr convs)])
                      (replayConversations E (AccountGroupPK cfg) convs)))))"

section \<open>Reading a trace\<close>

text \<open>
  The error \<^verbatim>\<open>replayLogsToDB\<close> returns when a call ends with the given result, and
  \<open>None\<close> when the call does not end the replay: first the error the log drainer
  returns, then the error of the replay.
\<close>

definition wrapped :: "ErrCode \<Rightarrow> error option \<Rightarrow> error option" where
  "wrapped code r = (case r of None \<Rightarrow> None | Some err \<Rightarrow> Wrap code (Some err))"

definition recv_error :: "ErrCode \<Rightarrow> error + 'a \<Rightarrow> error option" where
  "recv_error code r =
     (case r of Inl err \<Rightarrow> (if err = EOF then None else Wrap code (Some err)) | Inr x \<Rightarrow> None)"

definition left_error :: "ErrCode \<Rightarrow> error + 'a \<Rightarrow> error option" where
  "left_error code r = (case r of Inl err \<Rightarrow> Wrap code (Some err) | Inr x \<Rightarrow> None)"

fun drain_error :: "event \<Rightarrow> error option" where
  "drain_error (GroupMetadataList_call g u r) = left_error ErrEventListMetadata r"
| "drain_error (metaList_ctxErr g b) = (if b then Wrap ErrEventListMetadata None else None)"
| "drain_error (metaList_Recv g r) = recv_error ErrEventListMetadata r"
| "drain_error (handleMetadataEvent_call g m r) = r"
| "drain_error (GroupMessageList_call g u r) = left_error ErrEventListMessage r"
| "drain_error (msgList_ctxErr g b) = (if b then Wrap ErrEventListMessage None else None)"
| "drain_error (msgList_Recv g r) = recv_error ErrEventListMessage r"
| "drain_error (Unmarshal_call g p r) = left_error ErrDeserialization r"
| "drain_error (handleAppMessage_call g s m a r) = wrapped TODO r"
| "drain_error e = None"

fun replay_error :: "event \<Rightarrow> error option" where
  "replay_error (InstanceGetConfiguration_call r) = left_error TODO r"
| "replay_error (addAccount_call pk name r) = wrapped ErrDBWrite r"
| "replay_error (getAllConversations_call r) = left_error ErrDBRead r"
| "replay_error (b64DecodeBytes_call s r) = left_error ErrDeserialization r"
| "replay_error (ActivateGroup_call g l r) = wrapped ErrGroupActivate r"
| "replay_error (DeactivateGroup_call g r) = wrapped ErrGroupDeactivate r"
| "replay_error (GroupMetadataList_call g u r) =
     wrapped ErrReplayProcessGroupMetadata (drain_error (GroupMetadataList_call g u r))"
| "replay_error (metaList_ctxErr g b) =
     wrapped ErrReplayProcessGroupMetadata (drain_error (metaList_ctxErr g b))"
| "replay_error (metaList_Recv g r) =
     wrapped ErrReplayProcessGroupMetadata (drain_error (metaList_Recv g r))"
| "replay_error (handleMetadataEvent_call g m r) =
     wrapped ErrReplayProcessGroupMetadata (drain_error (handleMetadataEvent_call g m r))"
| "replay_error (GroupMessageList_call g u r) =
     wrapped ErrReplayProcessGroupMessage (drain_error (GroupMessageList_call g u r))"
| "replay_error (msgList_ctxErr g b) =
     wrapped ErrReplayProcessGroupMessage (drain_error (msgList_ctxErr g b))"
| "replay_error (msgList_Recv g r) =
     wrapped ErrReplayProcessGroupMessage (drain_error (msgList_Recv g r))"
| "replay_error (Unmarshal_call g p r) =
     wrapped ErrReplayProcessGroupMessage (drain_error (Unmarshal_call g p r))"
| "replay_error (handleAppMessage_call g s m a r) =
     wrapped ErrReplayProcessGroupMessage (drain_error (handleAppMessage_call g s m a r))"

text \<open>A call failed when it ends the replay.\<close>

definition failed :: "event \<Rightarrow> bool" where
  "failed e = (replay_error e \<noteq> None)"

text \<open>The trace of an outcome.\<close>

definition events :: "'w outcome \<Rightarrow> event list" where
  "events m = snd (snd m)"

text \<open>
  Every error is fatal: no call before the last one of a trace failed, and the error
  returned is the one the table \<open>errf\<close> gives for the last call.
\<close>

definition fail_fast :: "(event \<Rightarrow> error option) \<Rightarrow> 'w outcome \<Rightarrow> bool" where
  "fail_fast errf m =
     (case m of (r, w, t) \<Rightarrow>
        (\<forall>e\<in>set (butlast t). errf e = None) \<and>
        (case r of None \<Rightarrow> (\<forall>e\<in>set t. errf e = None)
                 | Some err \<Rightarrow> t \<noteq> [] \<and> errf (last t) = Some err))"

text \<open>
  The part of the program a call belongs to, and the group it is made for.  The calls
  of a log drain are made for the group the drainer was called with.
\<close>

datatype kind = Setup | MetadataDrain | MessageDrain

fun kind_of :: "event \<Rightarrow> kind" where
  "kind_of (GroupMetadataList_call g u r) = MetadataDrain"
| "kind_of (metaList_ctxErr g b) = MetadataDrain"
| "kind_of (metaList_Recv g r) = MetadataDrain"
| "kind_of (handleMetadataEvent_call g m r) = MetadataDrain"
| "kind_of (GroupMessageList_call g u r) = MessageDrain"
| "kind_of (msgList_ctxErr g b) = MessageDrain"
| "kind_of (msgList_Recv g r) = MessageDrain"
| "kind_of (Unmarshal_call g p r) = MessageDrain"
| "kind_of (handleAppMessage_call g s m a r) = MessageDrain"
| "kind_of e = Setup"

fun group_of :: "event \<Rightarrow> bytes option" where
  "group_of (GroupMetadataList_call g u r) = Some g"
| "group_of (metaList_ctxErr g b) = Some g"
| "group_of (metaList_Recv g r) = Some g"
| "group_of (handleMetadataEvent_call g m r) = Some g"
| "group_of (GroupMessageList_call g u r) = Some g"
| "group_of (msgList_ctxErr g b) = Some g"
| "group_of (msgList_Recv g r) = Some g"
| "group_of (Unmarshal_call g p r) = Some g"
| "group_of (handleAppMessage_call g s m a r) = Some g"
| "group_of (ActivateGroup_call g l r) = Some g"
| "group_of (DeactivateGroup_call g r) = Some g"
| "group_of e = None"

text \<open>
  The cancellation check that guards a receive, and the traces in which every receive
  comes right after its check, the check having found the context alive.
\<close>

fun check_of :: "event \<Rightarrow> event option" where
  "check_of (metaList_Recv g x) = Some (metaList_ctxErr g False)"
| "check_of (msgList_Recv g x) = Some (msgList_ctxErr g False)"
| "check_of e = None"

definition guarded :: "event list \<Rightarrow> bool" where
  "guarded t =
     (\<forall>pre e post c. t = pre @ e # post \<and> check_of e = Some c \<longrightarrow> pre \<noteq> [] \<and> last pre = c)"

text \<open>
  What a trace holds for one group \<open>g\<close>: the metadata items and the messages handed to
  the handler, the messages received, and the results of opening the group's metadata
  and message streams, each in the order of the calls.
\<close>

fun md_apply_of :: "bytes \<Rightarrow> event \<Rightarrow> GroupMetadataEvent list" where
  "md_apply_of g (handleMetadataEvent_call g' m r) = (if g' = g then [m] else [])"
| "md_apply_of g e = []"

definition md_applied :: "bytes \<Rightarrow> event list \<Rightarrow> GroupMetadataEvent list" where
  "md_applied g t = concat (map (md_apply_of g) t)"

fun msg_apply_of :: "bytes \<Rightarrow> event \<Rightarrow> GroupMessageEvent list" where
  "msg_apply_of g (handleAppMessage_call g' s m a r) = (if g' = g then [m] else [])"
| "msg_apply_of g e = []"

definition msg_applied :: "bytes \<Rightarrow> event list \<Rightarrow> GroupMessageEvent list" where
  "msg_applied g t = concat (map (msg_apply_of g) t)"

fun msg_recv_of :: "bytes \<Rightarrow> event \<Rightarrow> GroupMessageEvent list" where
  "msg_recv_of g (msgList_Recv g' r) = (case r of Inr m \<Rightarrow> if g' = g then [m] else [] | Inl err \<Rightarrow> [])"
| "msg_recv_of g e = []"

definition msg_received :: "bytes \<Rightarrow> event list \<Rightarrow> GroupMessageEvent list" where
  "msg_received g t = concat (map (msg_recv_of g) t)"

fun md_open_of :: "bytes \<Rightarrow> event \<Rightarrow> (error + GroupMetadataEvent event_stream) list" where
  "md_open_of g (GroupMetadataList_call g' u r) = (if g' = g then [r] else [])"
| "md_open_of g e = []"

definition md_opened :: "bytes \<Rightarrow> event list \<Rightarrow> (error + GroupMetadataEvent event_stream) list" where
  "md_opened g t = concat (map (md_open_of g) t)"

fun msg_open_of :: "bytes \<Rightarrow> event \<Rightarrow> (error + GroupMessageEvent event_stream) list" where
  "msg_open_of g (GroupMessageList_call g' u r) = (if g' = g then [r] else [])"
| "msg_open_of g e = []"

definition msg_opened :: "bytes \<Rightarrow> event list \<Rightarrow> (error + GroupMessageEvent event_stream) list" where
  "msg_opened g t = concat (map (msg_open_of g) t)"

text \<open>
  The calls of \<^verbatim>\<open>addAccount\<close> with what the store answered, and the accounts added: the
  store has the account when \<^verbatim>\<open>addAccount\<close> returned no error, and a call the store refused
  adds none.  Then the keys handed to \<^verbatim>\<open>b64DecodeBytes\<close>.  Each in the order of the calls.
\<close>

fun account_call_of :: "event \<Rightarrow> (string \<times> string \<times> error option) list" where
  "account_call_of (addAccount_call pk name r) = [(pk, name, r)]"
| "account_call_of e = []"

definition account_calls :: "event list \<Rightarrow> (string \<times> string \<times> error option) list" where
  "account_calls t = concat (map account_call_of t)"

fun account_of :: "event \<Rightarrow> (string \<times> string) list" where
  "account_of (addAccount_call pk name r) = (if r = None then [(pk, name)] else [])"
| "account_of e = []"

definition accounts_added :: "event list \<Rightarrow> (string \<times> string) list" where
  "accounts_added t = concat (map account_of t)"

fun decode_of :: "event \<Rightarrow> string list" where
  "decode_of (b64DecodeBytes_call s r) = [s]"
| "decode_of e = []"

definition decoded :: "event list \<Rightarrow> string list" where
  "decoded t = concat (map decode_of t)"

text \<open>
  The groups in the activated state: a group enters with an \<^verbatim>\<open>ActivateGroup\<close> that
  returned no error and leaves with a \<^verbatim>\<open>DeactivateGroup\<close> that returned no error.
  \<open>peak A t\<close> is the largest number of groups activated at any point of \<open>t\<close>, from the
  activated groups \<open>A\<close>.
\<close>

fun activate_step :: "bytes list \<Rightarrow> event \<Rightarrow> bytes list" where
  "activate_step A (ActivateGroup_call g l r) = (if r = None then g # A else A)"
| "activate_step A (DeactivateGroup_call g r) = (if r = None then removeAll g A else A)"
| "activate_step A e = A"

definition activated_from :: "bytes list \<Rightarrow> event list \<Rightarrow> bytes list" where
  "activated_from A t = foldl activate_step A t"

definition activated :: "event list \<Rightarrow> bytes list" where
  "activated t = activated_from [] t"

fun peak :: "bytes list \<Rightarrow> event list \<Rightarrow> nat" where
  "peak A [] = length A"
| "peak A (e # t) = max (length A) (peak (activate_step A e) t)"


section \<open>Invariants of traces\<close>

text \<open>
  The predicates below are used in the proofs; each holds of the trace of every replay.

  \<open>no_md g s\<close> and \<open>no_msg g s\<close>: the trace \<open>s\<close> holds no call of the metadata drain
  (of the message drain) of the group \<open>g\<close>.
\<close>

definition no_md :: "bytes \<Rightarrow> event list \<Rightarrow> bool" where
  "no_md g s = (\<forall>x\<in>set s. \<not> (kind_of x = MetadataDrain \<and> group_of x = Some g))"

definition no_msg :: "bytes \<Rightarrow> event list \<Rightarrow> bool" where
  "no_msg g s = (\<forall>x\<in>set s. \<not> (kind_of x = MessageDrain \<and> group_of x = Some g))"

text \<open>
  \<open>md_ok g s\<close>: a trace that never opens the metadata stream of \<open>g\<close> holds no call of its
  metadata drain; in a trace that opens it once, with the items \<open>ms\<close> and the final error
  \<open>fin\<close>, the items applied are an initial part of \<open>ms\<close>, a receive that returns an error
  returns \<open>fin\<close> after all of \<open>ms\<close> was applied, and the drain either reaches that receive
  or holds a failed call.
\<close>

definition md_ok :: "bytes \<Rightarrow> event list \<Rightarrow> bool" where
  "md_ok g s =
     ((md_opened g s = [] \<longrightarrow>
         (\<forall>e\<in>set s. \<not> (kind_of e = MetadataDrain \<and> group_of e = Some g))) \<and>
      (\<forall>ms fin. md_opened g s = [Inr (ms, fin)] \<longrightarrow>
         (\<exists>n. md_applied g s = take n ms) \<and>
         (\<forall>x. metaList_Recv g (Inl x) \<in> set s \<longrightarrow> x = fin \<and> md_applied g s = ms) \<and>
         (metaList_Recv g (Inl fin) \<in> set s \<or> (\<exists>e\<in>set s. failed e))))"

text \<open>
  \<open>md_after_msg g s\<close>: after a call of the message drain of \<open>g\<close>, a call of the metadata
  drain of \<open>g\<close> comes only after the metadata stream of \<open>g\<close> was opened anew.
  \<open>opened_first g seen s\<close>: every call of the message drain of \<open>g\<close> in \<open>s\<close> comes after an
  opening of the metadata stream of \<open>g\<close> (\<open>seen\<close>: one came before \<open>s\<close>).
\<close>

definition md_after_msg :: "bytes \<Rightarrow> event list \<Rightarrow> bool" where
  "md_after_msg g s =
     ((md_opened g s = [] \<longrightarrow> no_md g s) \<and>
      (\<forall>pre e post. s = pre @ e # post \<and> kind_of e = MessageDrain \<and> group_of e = Some g \<and>
          md_opened g post = [] \<longrightarrow> no_md g post))"

fun opened_first :: "bytes \<Rightarrow> bool \<Rightarrow> event list \<Rightarrow> bool" where
  "opened_first g seen [] = True"
| "opened_first g seen (e # t) =
     ((kind_of e = MessageDrain \<and> group_of e = Some g \<longrightarrow> seen) \<and>
      opened_first g (seen \<or> md_open_of g e \<noteq> []) t)"

text \<open>
  \<open>loop_call E H convs e\<close>: a call made by the loop over the conversations \<open>convs\<close>, the
  home group being \<open>H\<close>: a decoding, or a call for a group that is the decoded key of a
  listed conversation, and for the home group a call of the message drain only.
  \<open>later_call E H e\<close>: a call made after the account was added.
\<close>

definition loop_call :: "'w env \<Rightarrow> bytes \<Rightarrow> Conversation list \<Rightarrow> event \<Rightarrow> bool" where
  "loop_call E H convs e =
     ((decode_of e \<noteq> [] \<or> group_of e \<noteq> None) \<and>
      (group_of e = Some H \<longrightarrow> kind_of e = MessageDrain) \<and>
      (\<forall>g. group_of e = Some g \<longrightarrow> (\<exists>c\<in>set convs. b64DecodeBytes E (PublicKey c) = Inr g)))"

definition later_call :: "'w env \<Rightarrow> bytes \<Rightarrow> event \<Rightarrow> bool" where
  "later_call E H e =
     (kind_of e = MetadataDrain \<or> (\<exists>x. e = getAllConversations_call x) \<or>
      (\<exists>convs. loop_call E H convs e))"

text \<open>
  \<open>quiet e\<close>: the call neither activates nor deactivates a group.
  \<open>bracketed g s\<close>: every call that hands an item of \<open>g\<close> to the handler has a successful
  activation of \<open>g\<close> before it and a successful deactivation of \<open>g\<close> after it.
  \<open>deact_after_act g s\<close>: a trace that deactivates \<open>g\<close> also activates it.
\<close>

definition quiet :: "event \<Rightarrow> bool" where
  "quiet e = (group_of e = None \<or> kind_of e \<noteq> Setup)"


definition deact_after_act :: "bytes \<Rightarrow> event list \<Rightarrow> bool" where
  "deact_after_act g s =
     ((\<exists>x. DeactivateGroup_call g x \<in> set s) \<longrightarrow> ActivateGroup_call g True None \<in> set s)"

text \<open>
  \<open>md_tail g s\<close>: when \<open>s\<close> ends with a receive on the metadata stream of \<open>g\<close> that
  returned the error \<open>x\<close>, the last opening of that stream in \<open>s\<close> returned a stream
  with the items \<open>ms\<close> and the final error \<open>x\<close>, every call after the opening is a call
  of the metadata drain of \<open>g\<close>, and the items applied after it are exactly \<open>ms\<close>.
  \<open>msg_tail E g s\<close>: the same for a trace that ends with an \<^verbatim>\<open>Unmarshal\<close> that failed on a
  payload of the message stream of \<open>g\<close>: the payload is that of an item \<open>ms ! i\<close> of the
  stream opened last, the items before it were parsed, and after the opening they were
  applied and they and the failing one were received.
  \<open>msg_after_open g s\<close>: the first call of the message drain of \<open>g\<close> is the opening of its
  message stream.
\<close>

definition md_tail :: "bytes \<Rightarrow> event list \<Rightarrow> bool" where
  "md_tail g s =
     (\<forall>x. s \<noteq> [] \<and> last s = metaList_Recv g (Inl x) \<longrightarrow>
        (\<exists>pre ms post. s = pre @ GroupMetadataList_call g True (Inr (ms, x)) # post \<and>
           md_applied g post = ms \<and> md_opened g post = [] \<and>
           (\<forall>e\<in>set post. kind_of e = MetadataDrain \<and> group_of e = Some g)))"

definition msg_tail :: "'w env \<Rightarrow> bytes \<Rightarrow> event list \<Rightarrow> bool" where
  "msg_tail E g s =
     (\<forall>p err. s \<noteq> [] \<and> last s = Unmarshal_call g p (Inl err) \<longrightarrow>
        (\<exists>pre ms fin post i. s = pre @ GroupMessageList_call g True (Inr (ms, fin)) # post \<and>
           i < length ms \<and> Message (ms ! i) = p \<and> Unmarshal E p = Inl err \<and>
           (\<forall>m\<in>set (take i ms). \<exists>a. Unmarshal E (Message m) = Inr a) \<and>
           msg_applied g post = take i ms \<and> msg_received g post = take (Suc i) ms \<and>
           msg_opened g post = [] \<and>
           (\<forall>e\<in>set post. kind_of e = MessageDrain \<and> group_of e = Some g)))"

definition msg_after_open :: "bytes \<Rightarrow> event list \<Rightarrow> bool" where
  "msg_after_open g s =
     (\<forall>pre e post. s = pre @ e # post \<and> kind_of e = MessageDrain \<and> group_of e = Some g \<and>
        msg_opened g pre = [] \<longrightarrow> msg_open_of g e \<noteq> [])"

section \<open>Concrete environments\<close>

text \<open>
  The scenario of the spec: the account group \<open>[1]\<close> and the groups \<open>[2]\<close> and \<open>[3]\<close>,
  listed by the store under their unpadded URL-safe base64 names; two metadata items
  for the account group; one metadata item and three messages for \<open>[2]\<close>; nothing for
  \<open>[3]\<close>.  Every call succeeds and the context is never cancelled.  The world is the flag
  "the context is cancelled".

  The payloads of the messages are protobuf encodings of an \<^verbatim>\<open>AppMessage\<close> that holds its
  type only: the tag \<open>8\<close> (field 1, a varint) and a value below \<open>128\<close> in one byte.  The
  decoder of the scenario reads these and the empty message, and refuses every other
  payload; \<open>[255]\<close>, a tag that is cut short, is one that \<^verbatim>\<open>proto.Unmarshal\<close> refuses.
\<close>

definition b64enc :: "bytes \<Rightarrow> string" where
  "b64enc b = (if b = [1] then ''AQ'' else if b = [2] then ''Ag'' else if b = [3] then ''Aw'' else [])"

definition b64dec :: "string \<Rightarrow> error + bytes" where
  "b64dec s =
     (if s = ''AQ'' then Inr [1] else if s = ''Ag'' then Inr [2] else if s = ''Aw'' then Inr [3]
      else if s = [] then Inr [] else Inl (Foreign ''illegal base64 data''))"

definition metaLog :: "bytes \<Rightarrow> GroupMetadataEvent event_stream" where
  "metaLog g = (if g = [1] then ([[10], [11]], EOF) else if g = [2] then ([[20]], EOF) else ([], EOF))"

definition msgLog :: "bytes \<Rightarrow> GroupMessageEvent event_stream" where
  "msgLog g =
     (if g = [2] then ([\<lparr>Message = [8, 1]\<rparr>, \<lparr>Message = [8, 2]\<rparr>, \<lparr>Message = [8, 3]\<rparr>], EOF)
      else ([], EOF))"

fun unmarshal :: "bytes \<Rightarrow> error + AppMessage" where
  "unmarshal [] = Inr (AppMessage [])"
| "unmarshal [tag, n] =
     (if tag = 8 \<and> n < 128 then Inr (AppMessage [tag, n]) else Inl (Foreign ''cannot parse''))"
| "unmarshal p = Inl (Foreign ''cannot parse'')"

definition scenario :: "bool env" where
  "scenario =
     \<lparr>InstanceGetConfiguration = (\<lambda>w. (Inr \<lparr>AccountGroupPK = [1]\<rparr>, w)),
      addAccount = (\<lambda>pk name w. (None, w)),
      getAllConversations =
        (\<lambda>w. (Inr [\<lparr>PublicKey = ''AQ''\<rparr>, \<lparr>PublicKey = ''Ag''\<rparr>, \<lparr>PublicKey = ''Aw''\<rparr>], w)),
      ActivateGroup = (\<lambda>g l w. (None, w)),
      DeactivateGroup = (\<lambda>g w. (None, w)),
      GroupMetadataList = (\<lambda>g u w. (Inr (metaLog g), w)),
      GroupMessageList = (\<lambda>g u w. (Inr (msgLog g), w)),
      subCtxErr = (\<lambda>w. w),
      handleMetadataEvent = (\<lambda>m w. (None, w)),
      handleAppMessage = (\<lambda>s m a w. (None, w)),
      Unmarshal = unmarshal,
      b64EncodeBytes = b64enc,
      b64DecodeBytes = b64dec\<rparr>"

text \<open>
  The scenario with a protocol client whose configuration lookup fails, and with a store
  that refuses to add the account.
\<close>

definition no_configuration :: "bool env" where
  "no_configuration =
     scenario\<lparr>InstanceGetConfiguration := (\<lambda>w. (Inl (Foreign ''unavailable''), w))\<rparr>"

definition store_full :: "bool env" where
  "store_full = scenario\<lparr>addAccount := (\<lambda>pk name w. (Some (Foreign ''disk full''), w))\<rparr>"


definition cancelled_in_messages :: "bool env" where
  "cancelled_in_messages = scenario\<lparr>handleAppMessage := (\<lambda>s m a w. (None, True))\<rparr>"

text \<open>
  The scenario with a handler that rejects the metadata item \<open>[10]\<close>; with a metadata
  stream of the group \<open>[2]\<close> that breaks after its one item; and with a message stream of
  the group \<open>[2]\<close> whose second payload does not parse.
\<close>

definition rejecting_metadata :: "bool env" where
  "rejecting_metadata =
     scenario\<lparr>handleMetadataEvent :=
       (\<lambda>m w. if m = [10] then (Some (Foreign ''rejected''), w) else (None, w))\<rparr>"

definition broken_metadata_stream :: "bool env" where
  "broken_metadata_stream =
     scenario\<lparr>GroupMetadataList :=
       (\<lambda>g u w. (Inr (if g = [2] then ([[20]], Foreign ''connection reset'') else metaLog g), w))\<rparr>"

definition malformed_message :: "bool env" where
  "malformed_message =
     scenario\<lparr>GroupMessageList :=
       (\<lambda>g u w. (Inr (if g = [2]
                       then ([\<lparr>Message = [8, 1]\<rparr>, \<lparr>Message = [255]\<rparr>, \<lparr>Message = [8, 3]\<rparr>], EOF)
                       else msgLog g), w))\<rparr>"

text \<open>
  The scenario with a store whose third conversation has a key that is not base64; with
  a store that does not list the account group; and with such a store and a protocol
  client that refuses every activation.
\<close>

definition bad_key :: "bool env" where
  "bad_key =
     scenario\<lparr>getAllConversations :=
       (\<lambda>w. (Inr [\<lparr>PublicKey = ''AQ''\<rparr>, \<lparr>PublicKey = ''Ag''\<rparr>, \<lparr>PublicKey = ''!!''\<rparr>,
                  \<lparr>PublicKey = ''Aw''\<rparr>], w))\<rparr>"

definition home_not_listed :: "bool env" where
  "home_not_listed =
     scenario\<lparr>getAllConversations := (\<lambda>w. (Inr [\<lparr>PublicKey = ''Ag''\<rparr>, \<lparr>PublicKey = ''Aw''\<rparr>], w))\<rparr>"

definition activation_refused :: "bool env" where
  "activation_refused =
     home_not_listed\<lparr>ActivateGroup := (\<lambda>g l w. (Some (Foreign ''refused''), w))\<rparr>"

section \<open>Sequencing\<close>

lemma andThen_None [simp]:
  "andThen (None, w, t) k = (case k w of (r, w', t') \<Rightarrow> (r, w', t @ t'))"
  by (simp add: andThen_def)

lemma andThen_Some [simp]: "andThen (Some e, w, t) k = (Some e, w, t)"
  by (simp add: andThen_def)

lemma events_simps [simp]: "events (r, w, t) = t"
  by (simp add: events_def)

lemma fail_fast_andThen:
  assumes "fail_fast f m" and "\<And>w. fail_fast f (k w)"
  shows "fail_fast f (andThen m k)"
proof -
  obtain r w t where m: "m = (r, w, t)" by (cases m)
  show ?thesis
  proof (cases r)
    case (Some err)
    with assms(1) m show ?thesis by (simp add: andThen_def)
  next
    case None
    obtain r' w' t' where k: "k w = (r', w', t')" by (cases "k w")
    from assms(1) m None have t: "\<forall>e\<in>set t. f e = None" by (simp add: fail_fast_def)
    from assms(2)[of w] k have t': "\<forall>e\<in>set (butlast t'). f e = None"
      and r': "case r' of None \<Rightarrow> (\<forall>e\<in>set t'. f e = None) | Some err \<Rightarrow> t' \<noteq> [] \<and> f (last t') = Some err"
      by (simp_all add: fail_fast_def)
    have "\<forall>e\<in>set (butlast (t @ t')). f e = None"
      using t t' by (auto simp: butlast_append dest: in_set_butlastD)
    moreover have "case r' of None \<Rightarrow> (\<forall>e\<in>set (t @ t'). f e = None)
        | Some err \<Rightarrow> t @ t' \<noteq> [] \<and> f (last (t @ t')) = Some err"
      using t r' by (auto split: option.splits)
    ultimately show ?thesis using m None k by (simp add: fail_fast_def)
  qed
qed

lemma fail_fast_wrapWith:
  assumes "fail_fast f m" and "\<forall>e\<in>set (events m). g e = wrapped c (f e)"
  shows "fail_fast g (wrapWith c m)"
proof -
  obtain r w t where m: "m = (r, w, t)" by (cases m)
  have b: "\<forall>e\<in>set (butlast t). g e = wrapped c (f e)"
    using assms(2) m by (auto dest: in_set_butlastD)
  show ?thesis using assms m b
    by (cases r) (auto simp: fail_fast_def wrapWith_def wrapped_def Wrap_def)
qed

lemma fail_fast_call:
  assumes "\<And>r. f (ev r) = r"
  shows "fail_fast f (call ev h w)"
  using assms by (cases "h w") (auto simp: fail_fast_def call_def split: option.splits)

lemma fail_fast_event:
  assumes "f e = None"
  shows "fail_fast f (None, w, [e])"
  using assms by (simp add: fail_fast_def)

lemma fail_fast_last:
  assumes "f e = Some err" "\<forall>x\<in>set t. f x = None"
  shows "fail_fast f (Some err, w, t @ [e])"
  using assms by (simp add: fail_fast_def)

lemma fail_fast_metaList_loop:
  "fail_fast drain_error (metaList_loop E g ms fin w)"
proof (induction ms arbitrary: w)
  case Nil
  show ?case by (simp add: fail_fast_def recv_error_def Wrap_def)
next
  case (Cons m ms)
  show ?case
  proof (cases "subCtxErr E w")
    case True
    then show ?thesis by (simp add: fail_fast_def Wrap_def)
  next
    case False
    have "fail_fast drain_error
        (andThen (None, w, [metaList_ctxErr g False, metaList_Recv g (Inr m)])
          (\<lambda>w. andThen (call (handleMetadataEvent_call g m) (handleMetadataEvent E m) w)
          (\<lambda>w. metaList_loop E g ms fin w)))"
      by (intro fail_fast_andThen fail_fast_call Cons.IH)
         (simp_all add: fail_fast_def recv_error_def)
    with False show ?thesis by simp
  qed
qed


lemma all_andThen:
  assumes "\<forall>e\<in>set (events m). P e" and "\<And>w. \<forall>e\<in>set (events (k w)). P e"
  shows "\<forall>e\<in>set (events (andThen m k)). P e"
proof -
  obtain r w t where m: "m = (r, w, t)" by (cases m)
  obtain r' w' t' where k: "k w = (r', w', t')" by (cases "k w")
  from assms(2)[of w] k have "\<forall>e\<in>set t'. P e" by simp
  with assms(1) m k show ?thesis by (cases r) auto
qed

lemma events_wrapWith [simp]: "events (wrapWith c m) = events m"
  by (cases m) (auto simp: wrapWith_def events_def split: option.splits)

lemma events_call [simp]: "events (call ev h w) = [ev (fst (h w))]"
  by (cases "h w") (simp add: call_def)

lemma all_metaList_loop:
  "\<forall>e\<in>set (events (metaList_loop E g ms fin w)). kind_of e = MetadataDrain \<and> group_of e = Some g"
proof (induction ms arbitrary: w)
  case Nil
  show ?case by simp
next
  case (Cons m ms)
  show ?case
  proof (cases "subCtxErr E w")
    case True
    then show ?thesis by simp
  next
    case False
    have "\<forall>e\<in>set (events
        (andThen (None, w, [metaList_ctxErr g False, metaList_Recv g (Inr m)])
          (\<lambda>w. andThen (call (handleMetadataEvent_call g m) (handleMetadataEvent E m) w)
          (\<lambda>w. metaList_loop E g ms fin w)))). kind_of e = MetadataDrain \<and> group_of e = Some g"
      by (intro all_andThen Cons.IH) simp_all
    with False show ?thesis by simp
  qed
qed

lemma all_processMetadataList:
  "\<forall>e\<in>set (events (processMetadataList E g w)). kind_of e = MetadataDrain \<and> group_of e = Some g"
proof (cases "GroupMetadataList E g True w")
  case (Pair res w')
  show ?thesis
  proof (cases res)
    case (Inl err)
    with Pair show ?thesis by (simp add: processMetadataList_def)
  next
    case (Inr metaList)
    have "\<forall>e\<in>set (events (andThen (None, w', [GroupMetadataList_call g True (Inr metaList)])
            (metaList_loop E g (fst metaList) (snd metaList)))).
          kind_of e = MetadataDrain \<and> group_of e = Some g"
      by (intro all_andThen all_metaList_loop) simp
    with Pair Inr show ?thesis by (simp add: processMetadataList_def)
  qed
qed

lemma fail_fast_processMetadataList:
  "fail_fast drain_error (processMetadataList E g w)"
proof (cases "GroupMetadataList E g True w")
  case (Pair res w')
  show ?thesis
  proof (cases res)
    case (Inl err)
    with Pair show ?thesis
      by (simp add: processMetadataList_def fail_fast_def left_error_def Wrap_def)
  next
    case (Inr metaList)
    have "fail_fast drain_error (andThen (None, w', [GroupMetadataList_call g True (Inr metaList)])
            (metaList_loop E g (fst metaList) (snd metaList)))"
      by (intro fail_fast_andThen fail_fast_metaList_loop) (simp add: fail_fast_def left_error_def)
    with Pair Inr show ?thesis by (simp add: processMetadataList_def)
  qed
qed

lemma fail_fast_msgList_loop:
  "fail_fast drain_error (msgList_loop E g s ms fin w)"
proof (induction ms arbitrary: w)
  case Nil
  show ?case by (simp add: fail_fast_def recv_error_def Wrap_def)
next
  case (Cons m ms)
  show ?case
  proof (cases "subCtxErr E w")
    case True
    then show ?thesis by (simp add: fail_fast_def Wrap_def)
  next
    case False
    show ?thesis
    proof (cases "Unmarshal E (Message m)")
      case (Inl err)
      with False show ?thesis
        by (simp add: fail_fast_def recv_error_def left_error_def Wrap_def)
    next
      case (Inr appMsg)
      have "fail_fast drain_error
          (andThen (None, w, [msgList_ctxErr g False, msgList_Recv g (Inr m),
                Unmarshal_call g (Message m) (Inr appMsg)])
             (\<lambda>w. andThen
                (wrapWith TODO
                   (call (handleAppMessage_call g s m appMsg) (handleAppMessage E s m appMsg) w))
             (\<lambda>w. msgList_loop E g s ms fin w)))"
        by (intro fail_fast_andThen Cons.IH fail_fast_wrapWith [where f = "\<lambda>e. case e of handleAppMessage_call g s m a r \<Rightarrow> r | _ \<Rightarrow> None"] fail_fast_call)
           (simp_all add: fail_fast_def recv_error_def left_error_def)
      with False Inr show ?thesis by simp
    qed
  qed
qed

lemma all_msgList_loop:
  "\<forall>e\<in>set (events (msgList_loop E g s ms fin w)). kind_of e = MessageDrain \<and> group_of e = Some g"
proof (induction ms arbitrary: w)
  case Nil
  show ?case by simp
next
  case (Cons m ms)
  show ?case
  proof (cases "subCtxErr E w")
    case True
    then show ?thesis by simp
  next
    case False
    show ?thesis
    proof (cases "Unmarshal E (Message m)")
      case (Inl err)
      with False show ?thesis by simp
    next
      case (Inr appMsg)
      have "\<forall>e\<in>set (events
          (andThen (None, w, [msgList_ctxErr g False, msgList_Recv g (Inr m),
                Unmarshal_call g (Message m) (Inr appMsg)])
             (\<lambda>w. andThen
                (wrapWith TODO
                   (call (handleAppMessage_call g s m appMsg) (handleAppMessage E s m appMsg) w))
             (\<lambda>w. msgList_loop E g s ms fin w)))). kind_of e = MessageDrain \<and> group_of e = Some g"
        by (intro all_andThen Cons.IH) simp_all
      with False Inr show ?thesis by simp
    qed
  qed
qed


lemma all_processMessageList:
  "\<forall>e\<in>set (events (processMessageList E g w)). kind_of e = MessageDrain \<and> group_of e = Some g"
proof (cases "GroupMessageList E g True w")
  case (Pair res w')
  show ?thesis
  proof (cases res)
    case (Inl err)
    with Pair show ?thesis by (simp add: processMessageList_def)
  next
    case (Inr msgList)
    have "\<forall>e\<in>set (events (andThen (None, w', [GroupMessageList_call g True (Inr msgList)])
            (msgList_loop E g (b64EncodeBytes E g) (fst msgList) (snd msgList)))).
          kind_of e = MessageDrain \<and> group_of e = Some g"
      by (intro all_andThen all_msgList_loop) simp
    with Pair Inr show ?thesis by (simp add: processMessageList_def)
  qed
qed

lemma fail_fast_processMessageList:
  "fail_fast drain_error (processMessageList E g w)"
proof (cases "GroupMessageList E g True w")
  case (Pair res w')
  show ?thesis
  proof (cases res)
    case (Inl err)
    with Pair show ?thesis
      by (simp add: processMessageList_def fail_fast_def left_error_def Wrap_def)
  next
    case (Inr msgList)
    have "fail_fast drain_error (andThen (None, w', [GroupMessageList_call g True (Inr msgList)])
            (msgList_loop E g (b64EncodeBytes E g) (fst msgList) (snd msgList)))"
      by (intro fail_fast_andThen fail_fast_msgList_loop) (simp add: fail_fast_def left_error_def)
    with Pair Inr show ?thesis by (simp add: processMessageList_def)
  qed
qed

lemma replay_error_MetadataDrain:
  "kind_of e = MetadataDrain \<Longrightarrow> replay_error e = wrapped ErrReplayProcessGroupMetadata (drain_error e)"
  by (cases e) simp_all

lemma replay_error_MessageDrain:
  "kind_of e = MessageDrain \<Longrightarrow> replay_error e = wrapped ErrReplayProcessGroupMessage (drain_error e)"
  by (cases e) simp_all

lemma fail_fast_metadata:
  "fail_fast replay_error (wrapWith ErrReplayProcessGroupMetadata (processMetadataList E g w))"
  using all_processMetadataList [of E g w]
  by (intro fail_fast_wrapWith [OF fail_fast_processMetadataList]) (simp add: replay_error_MetadataDrain)

lemma fail_fast_message:
  "fail_fast replay_error (wrapWith ErrReplayProcessGroupMessage (processMessageList E g w))"
  using all_processMessageList [of E g w]
  by (intro fail_fast_wrapWith [OF fail_fast_processMessageList]) (simp add: replay_error_MessageDrain)

lemma fail_fast_wrapped_call:
  assumes "\<And>r. f (ev r) = wrapped c r"
  shows "fail_fast f (wrapWith c (call ev h w))"
  using assms
  by (cases "h w") (auto simp: fail_fast_def call_def wrapWith_def wrapped_def Wrap_def split: option.splits)

lemma fail_fast_skip: "fail_fast f (None, w, [])"
  by (simp add: fail_fast_def)

lemma fail_fast_replayConversation:
  "fail_fast replay_error (replayConversation E H conv w)"
proof (cases "b64DecodeBytes E (PublicKey conv)")
  case (Inl err)
  then show ?thesis
    by (simp add: replayConversation_def fail_fast_def left_error_def Wrap_def)
next
  case (Inr g)
  show ?thesis
  proof (cases "g = H")
    case True
    have "fail_fast replay_error
        (andThen (None, w, [b64DecodeBytes_call (PublicKey conv) (Inr g)])
          (\<lambda>w. andThen (None, w, [])
          (\<lambda>w. andThen (wrapWith ErrReplayProcessGroupMessage (processMessageList E g w))
          (\<lambda>w. (None, w, [])))))"
      by (intro fail_fast_andThen fail_fast_message fail_fast_skip)
         (simp add: fail_fast_def left_error_def)
    with Inr True show ?thesis by (simp add: replayConversation_def)
  next
    case False
    have "fail_fast replay_error
        (andThen (None, w, [b64DecodeBytes_call (PublicKey conv) (Inr g)])
          (\<lambda>w. andThen
             (andThen
                (wrapWith ErrGroupActivate
                   (call (ActivateGroup_call g True) (ActivateGroup E g True) w))
                (\<lambda>w. wrapWith ErrReplayProcessGroupMetadata (processMetadataList E g w)))
          (\<lambda>w. andThen (wrapWith ErrReplayProcessGroupMessage (processMessageList E g w))
          (\<lambda>w. wrapWith ErrGroupDeactivate
                  (call (DeactivateGroup_call g) (DeactivateGroup E g) w)))))"
      by (intro fail_fast_andThen fail_fast_message fail_fast_metadata fail_fast_wrapped_call)
         (simp_all add: fail_fast_def left_error_def)
    with Inr False show ?thesis by (simp add: replayConversation_def)
  qed
qed

lemma fail_fast_replayConversations:
  "fail_fast replay_error (replayConversations E H convs w)"
proof (induction convs arbitrary: w)
  case Nil
  show ?case by (simp add: fail_fast_def)
next
  case (Cons conv convs)
  show ?case
    by (simp del: andThen_None andThen_Some)
       (intro fail_fast_andThen fail_fast_replayConversation Cons.IH)
qed

lemma fail_fast_replayLogsToDB:
  "fail_fast replay_error (replayLogsToDB E w)"
proof (cases "InstanceGetConfiguration E w")
  case (Pair res w1)
  show ?thesis
  proof (cases res)
    case (Inl err)
    with Pair show ?thesis
      by (simp add: replayLogsToDB_def fail_fast_def left_error_def Wrap_def)
  next
    case (Inr cfg)
    have conv: "fail_fast replay_error
        (case getAllConversations E w of
           (Inl err, w') \<Rightarrow> (Wrap ErrDBRead (Some err), w', [getAllConversations_call (Inl err)])
         | (Inr convs, w') \<Rightarrow>
             andThen (None, w', [getAllConversations_call (Inr convs)])
               (replayConversations E (AccountGroupPK cfg) convs))" for w
    proof (cases "getAllConversations E w")
      case (Pair res' w4)
      show ?thesis
      proof (cases res')
        case (Inl err)
        with Pair show ?thesis by (simp add: fail_fast_def left_error_def Wrap_def)
      next
        case (Inr convs)
        have "fail_fast replay_error (andThen (None, w4, [getAllConversations_call (Inr convs)])
               (replayConversations E (AccountGroupPK cfg) convs))"
          by (intro fail_fast_andThen fail_fast_replayConversations)
             (simp add: fail_fast_def left_error_def)
        with Pair Inr show ?thesis by simp
      qed
    qed
    have "fail_fast replay_error
       (andThen (None, w1, [InstanceGetConfiguration_call (Inr cfg)])
          (\<lambda>w. andThen
             (wrapWith ErrDBWrite
                (call (addAccount_call (b64EncodeBytes E (AccountGroupPK cfg)) [])
                   (addAccount E (b64EncodeBytes E (AccountGroupPK cfg)) []) w))
          (\<lambda>w. andThen
             (wrapWith ErrReplayProcessGroupMetadata (processMetadataList E (AccountGroupPK cfg) w))
          (\<lambda>w. case getAllConversations E w of
                  (Inl err, w') \<Rightarrow>
                    (Wrap ErrDBRead (Some err), w', [getAllConversations_call (Inl err)])
                | (Inr convs, w') \<Rightarrow>
                    andThen (None, w', [getAllConversations_call (Inr convs)])
                      (replayConversations E (AccountGroupPK cfg) convs)))))"
      by (intro fail_fast_andThen fail_fast_metadata fail_fast_wrapped_call conv)
         (simp_all add: fail_fast_def left_error_def)
    with Pair Inr show ?thesis by (simp add: replayLogsToDB_def)
  qed
qed

lemma andThen_cases:
  assumes "andThen m k = (r, w', t)"
  obtains (stop) err where "m = (Some err, w', t)" "r = Some err"
  | (continue) w1 t1 t2 where "m = (None, w1, t1)" "k w1 = (r, w', t2)" "t = t1 @ t2"
proof -
  obtain r0 w0 t0 where m: "m = (r0, w0, t0)" by (cases m)
  show thesis
  proof (cases r0)
    case None
    obtain r1 w1 t1 where k: "k w0 = (r1, w1, t1)" by (cases "k w0")
    with assms m None have "r = r1" "w' = w1" "t = t0 @ t1" by simp_all
    with m None k show thesis by (intro continue [where ?w1.0 = w0 and ?t1.0 = t0 and ?t2.0 = t1]) simp_all
  next
    case (Some err)
    with assms m show thesis by (intro stop [where err = err]) auto
  qed
qed

lemma wrapWith_cases:
  assumes "wrapWith c m = (r, w', t)"
  obtains (failed) err where "m = (Some err, w', t)" "r = Some (WithCode c (Some err))"
  | (passed) "m = (None, w', t)" "r = None"
  using assms by (cases m) (auto simp: wrapWith_def Wrap_def split: option.splits)

lemma call_cases:
  assumes "call ev h w = (r, w', t)"
  obtains "h w = (r, w')" "t = [ev r]"
  using assms by (cases "h w") (auto simp: call_def)

lemma processMetadataList_cases:
  assumes "processMetadataList E g w = (r, w', t)"
  obtains (not_opened) err where "t = [GroupMetadataList_call g True (Inl err)]"
      "r = Some (WithCode ErrEventListMetadata (Some err))"
  | (opened) ms fin w1 tl where "t = GroupMetadataList_call g True (Inr (ms, fin)) # tl"
      "metaList_loop E g ms fin w1 = (r, w', tl)"
proof (cases "GroupMetadataList E g True w")
  case (Pair res w1)
  show thesis
  proof (cases res)
    case (Inl err)
    with Pair assms show thesis
      by (intro not_opened [where err = err]) (simp_all add: processMetadataList_def Wrap_def)
  next
    case (Inr metaList)
    obtain r2 w2 t2 where l: "metaList_loop E g (fst metaList) (snd metaList) w1 = (r2, w2, t2)"
      by (cases "metaList_loop E g (fst metaList) (snd metaList) w1")
    with Pair Inr assms show thesis
      by (intro opened [where ms = "fst metaList" and fin = "snd metaList" and tl = t2 and ?w1.0 = w1]) (simp_all add: processMetadataList_def)
  qed
qed

lemma processMessageList_cases:
  assumes "processMessageList E g w = (r, w', t)"
  obtains (not_opened) err where "t = [GroupMessageList_call g True (Inl err)]"
      "r = Some (WithCode ErrEventListMessage (Some err))"
  | (opened) ms fin w1 tl where "t = GroupMessageList_call g True (Inr (ms, fin)) # tl"
      "msgList_loop E g (b64EncodeBytes E g) ms fin w1 = (r, w', tl)"
proof (cases "GroupMessageList E g True w")
  case (Pair res w1)
  show thesis
  proof (cases res)
    case (Inl err)
    with Pair assms show thesis
      by (intro not_opened [where err = err]) (simp_all add: processMessageList_def Wrap_def)
  next
    case (Inr msgList)
    obtain r2 w2 t2 where l: "msgList_loop E g (b64EncodeBytes E g) (fst msgList) (snd msgList) w1 = (r2, w2, t2)"
      by (cases "msgList_loop E g (b64EncodeBytes E g) (fst msgList) (snd msgList) w1")
    with Pair Inr assms show thesis
      by (intro opened [where ms = "fst msgList" and fin = "snd msgList" and tl = t2 and ?w1.0 = w1]) (simp_all add: processMessageList_def)
  qed
qed

lemma replayConversation_cases:
  assumes "replayConversation E H conv w = (r, w', t)"
  obtains (bad_key) err where "b64DecodeBytes E (PublicKey conv) = Inl err"
      "t = [b64DecodeBytes_call (PublicKey conv) (Inl err)]"
      "r = Some (WithCode ErrDeserialization (Some err))"
  | (home) rs ts where "b64DecodeBytes E (PublicKey conv) = Inr H"
      "t = b64DecodeBytes_call (PublicKey conv) (Inr H) # ts"
      "processMessageList E H w = (rs, w', ts)"
      "r = wrapped ErrReplayProcessGroupMessage rs"
  | (not_activated) g err where "b64DecodeBytes E (PublicKey conv) = Inr g" "g \<noteq> H"
      "t = [b64DecodeBytes_call (PublicKey conv) (Inr g), ActivateGroup_call g True (Some err)]"
      "r = Some (WithCode ErrGroupActivate (Some err))"
  | (metadata_failed) g w1 err tm where "b64DecodeBytes E (PublicKey conv) = Inr g" "g \<noteq> H"
      "t = [b64DecodeBytes_call (PublicKey conv) (Inr g), ActivateGroup_call g True None] @ tm"
      "processMetadataList E g w1 = (Some err, w', tm)"
      "r = Some (WithCode ErrReplayProcessGroupMetadata (Some err))"
  | (message_failed) g w1 w2 tm err ts where "b64DecodeBytes E (PublicKey conv) = Inr g" "g \<noteq> H"
      "t = [b64DecodeBytes_call (PublicKey conv) (Inr g), ActivateGroup_call g True None] @ tm @ ts"
      "processMetadataList E g w1 = (None, w2, tm)"
      "processMessageList E g w2 = (Some err, w', ts)"
      "r = Some (WithCode ErrReplayProcessGroupMessage (Some err))"
  | (drained) g w1 w2 w3 tm ts rd where "b64DecodeBytes E (PublicKey conv) = Inr g" "g \<noteq> H"
      "t = [b64DecodeBytes_call (PublicKey conv) (Inr g), ActivateGroup_call g True None] @ tm @ ts
           @ [DeactivateGroup_call g rd]"
      "processMetadataList E g w1 = (None, w2, tm)"
      "processMessageList E g w2 = (None, w3, ts)"
      "r = wrapped ErrGroupDeactivate rd"
proof (cases "b64DecodeBytes E (PublicKey conv)")
  case (Inl err)
  with assms show thesis
    by (intro bad_key [where err = err]) (simp_all add: replayConversation_def Wrap_def)
next
  case (Inr g)
  show thesis
  proof (cases "g = H")
    case True
    obtain rs ws ts where s: "processMessageList E H w = (rs, ws, ts)"
      by (cases "processMessageList E H w")
    with Inr True assms show thesis
      by (intro home [where rs = rs and ts = ts])
         (auto simp: replayConversation_def wrapWith_def wrapped_def Wrap_def split: option.splits)
  next
    case False
    obtain ra w1 where a: "ActivateGroup E g True w = (ra, w1)"
      by (cases "ActivateGroup E g True w")
    show thesis
    proof (cases ra)
      case (Some err)
      with Inr False a assms show thesis
        by (intro not_activated [where g = g and err = err])
           (simp_all add: replayConversation_def call_def wrapWith_def Wrap_def)
    next
      case None
      obtain rm w2 tm where m: "processMetadataList E g w1 = (rm, w2, tm)"
        by (cases "processMetadataList E g w1")
      show thesis
      proof (cases rm)
        case (Some err)
        with Inr False a None m assms show thesis
          by (intro metadata_failed [where g = g and err = err and tm = tm and ?w1.0 = w1])
             (simp_all add: replayConversation_def call_def wrapWith_def Wrap_def)
      next
        case mNone: None
        obtain rs w3 ts where s: "processMessageList E g w2 = (rs, w3, ts)"
          by (cases "processMessageList E g w2")
        show thesis
        proof (cases rs)
          case (Some err)
          with Inr False a None m mNone s assms show thesis
            by (intro message_failed [where g = g and err = err and tm = tm and ts = ts and ?w1.0 = w1 and ?w2.0 = w2])
               (simp_all add: replayConversation_def call_def wrapWith_def Wrap_def)
        next
          case sNone: None
          obtain rd w4 where d: "DeactivateGroup E g w3 = (rd, w4)"
            by (cases "DeactivateGroup E g w3")
          with Inr False a None m mNone s sNone assms show thesis
            by (intro drained [where g = g and tm = tm and ts = ts and rd = rd and ?w1.0 = w1 and ?w2.0 = w2 and ?w3.0 = w3])
               (auto simp: replayConversation_def call_def wrapWith_def wrapped_def Wrap_def split: option.splits)
        qed
      qed
    qed
  qed
qed

lemma replayConversations_cases:
  assumes "replayConversations E H (conv # convs) w = (r, w', t)"
  obtains (stopped) err where "replayConversation E H conv w = (Some err, w', t)" "r = Some err"
  | (next_conversation) w1 t1 t2 where "replayConversation E H conv w = (None, w1, t1)"
      "replayConversations E H convs w1 = (r, w', t2)" "t = t1 @ t2"
  using assms by (auto elim: andThen_cases)

lemma replayLogsToDB_cases:
  assumes "replayLogsToDB E w = (r, w', t)"
  obtains (no_configuration) err where "t = [InstanceGetConfiguration_call (Inl err)]"
      "r = Some (WithCode TODO (Some err))"
  | (no_account) cfg err where
      "t = [InstanceGetConfiguration_call (Inr cfg),
            addAccount_call (b64EncodeBytes E (AccountGroupPK cfg)) [] (Some err)]"
      "r = Some (WithCode ErrDBWrite (Some err))"
  | (metadata_failed) cfg w2 err tm where
      "t = [InstanceGetConfiguration_call (Inr cfg),
            addAccount_call (b64EncodeBytes E (AccountGroupPK cfg)) [] None] @ tm"
      "processMetadataList E (AccountGroupPK cfg) w2 = (Some err, w', tm)"
      "r = Some (WithCode ErrReplayProcessGroupMetadata (Some err))"
  | (not_listed) cfg w2 w3 tm err where
      "t = [InstanceGetConfiguration_call (Inr cfg),
            addAccount_call (b64EncodeBytes E (AccountGroupPK cfg)) [] None] @ tm
           @ [getAllConversations_call (Inl err)]"
      "processMetadataList E (AccountGroupPK cfg) w2 = (None, w3, tm)"
      "r = Some (WithCode ErrDBRead (Some err))"
  | (listed) cfg w2 w3 tm convs w4 tl where
      "t = [InstanceGetConfiguration_call (Inr cfg),
            addAccount_call (b64EncodeBytes E (AccountGroupPK cfg)) [] None] @ tm
           @ getAllConversations_call (Inr convs) # tl"
      "processMetadataList E (AccountGroupPK cfg) w2 = (None, w3, tm)"
      "replayConversations E (AccountGroupPK cfg) convs w4 = (r, w', tl)"
proof (cases "InstanceGetConfiguration E w")
  case (Pair res w1)
  show thesis
  proof (cases res)
    case (Inl err)
    with Pair assms show thesis
      by (intro no_configuration [where err = err]) (simp_all add: replayLogsToDB_def Wrap_def)
  next
    case (Inr cfg)
    obtain ra w2 where a: "addAccount E (b64EncodeBytes E (AccountGroupPK cfg)) [] w1 = (ra, w2)"
      by (cases "addAccount E (b64EncodeBytes E (AccountGroupPK cfg)) [] w1")
    show thesis
    proof (cases ra)
      case (Some err)
      with Pair Inr a assms show thesis
        by (intro no_account [where cfg = cfg and err = err])
           (simp_all add: replayLogsToDB_def call_def wrapWith_def Wrap_def)
    next
      case None
      obtain rm w3 tm where m: "processMetadataList E (AccountGroupPK cfg) w2 = (rm, w3, tm)"
        by (cases "processMetadataList E (AccountGroupPK cfg) w2")
      show thesis
      proof (cases rm)
        case (Some err)
        with Pair Inr a None m assms show thesis
          by (intro metadata_failed [where cfg = cfg and err = err and tm = tm and ?w2.0 = w2])
             (simp_all add: replayLogsToDB_def call_def wrapWith_def Wrap_def)
      next
        case mNone: None
        obtain rc w4 where c: "getAllConversations E w3 = (rc, w4)"
          by (cases "getAllConversations E w3")
        show thesis
        proof (cases rc)
          case (Inl err)
          with Pair Inr a None m mNone c assms show thesis
            by (intro not_listed [where cfg = cfg and err = err and tm = tm and ?w2.0 = w2 and ?w3.0 = w3])
               (simp_all add: replayLogsToDB_def call_def wrapWith_def Wrap_def)
        next
          case cInr: (Inr convs)
          obtain rl w5 tl where l: "replayConversations E (AccountGroupPK cfg) convs w4 = (rl, w5, tl)"
            by (cases "replayConversations E (AccountGroupPK cfg) convs w4")
          with Pair Inr a None m mNone c cInr assms show thesis
            by (intro listed [where cfg = cfg and tm = tm and tl = tl and convs = convs
                  and ?w2.0 = w2 and ?w3.0 = w3 and ?w4.0 = w4])
               (simp_all add: replayLogsToDB_def call_def wrapWith_def Wrap_def)
        qed
      qed
    qed
  qed
qed

section \<open>The result of a replay\<close>

lemma replayLogsToDB_nonempty:
  assumes "replayLogsToDB E w = (r, w', t)"
  shows "t \<noteq> []"
  using assms by (cases rule: replayLogsToDB_cases) simp_all

lemma replayLogsToDB_result:
  assumes "replayLogsToDB E w = (r, w', t)"
  shows "(\<forall>e\<in>set (butlast t). \<not> failed e) \<and> r = replay_error (last t)"
proof -
  have ff: "fail_fast replay_error (r, w', t)"
    using fail_fast_replayLogsToDB [of E w] assms by simp
  have ne: "t \<noteq> []" using assms by (rule replayLogsToDB_nonempty)
  show ?thesis
  proof (cases r)
    case None
    with ff ne show ?thesis by (auto simp: fail_fast_def failed_def dest: in_set_butlastD)
  next
    case (Some err)
    with ff show ?thesis by (auto simp: fail_fast_def failed_def)
  qed
qed

lemma failed_is_last:
  assumes "replayLogsToDB E w = (r, w', t)" and "e \<in> set t" and "failed e"
  shows "last t = e \<and> r = replay_error e"
proof -
  have ne: "t \<noteq> []" using assms(2) by auto
  from replayLogsToDB_result [OF assms(1)]
  have b: "\<forall>e\<in>set (butlast t). \<not> failed e" and r: "r = replay_error (last t)" by simp_all
  have "t = butlast t @ [last t]" using ne by simp
  then have "set t = set (butlast t @ [last t])" by simp
  then have "set t = set (butlast t) \<union> {last t}" by simp
  with assms(2,3) b have "e = last t" by auto
  with r show ?thesis by simp
qed


lemma guarded_append:
  assumes "guarded a" "guarded b"
  shows "guarded (a @ b)"
  unfolding guarded_def
proof (intro allI impI)
  fix pre e post c
  assume h: "a @ b = pre @ e # post \<and> check_of e = Some c"
  then have eq: "a @ b = pre @ e # post" and c: "check_of e = Some c" by simp_all
  from eq obtain us where
    "a = pre @ us \<and> us @ b = e # post \<or> a @ us = pre \<and> b = us @ e # post"
    unfolding append_eq_append_conv2 by blast
  then show "pre \<noteq> [] \<and> last pre = c"
  proof
    assume l: "a = pre @ us \<and> us @ b = e # post"
    show ?thesis
    proof (cases us)
      case Nil
      with l have "b = [] @ e # post" by simp
      with assms(2) c have "([]::event list) \<noteq> []" unfolding guarded_def by blast
      then show ?thesis by simp
    next
      case (Cons u us')
      with l have "a = pre @ e # us'" by simp
      with assms(1) c show ?thesis unfolding guarded_def by blast
    qed
  next
    assume r: "a @ us = pre \<and> b = us @ e # post"
    with assms(2) c have "us \<noteq> [] \<and> last us = c" unfolding guarded_def by blast
    with r show ?thesis by auto
  qed
qed

lemma guarded_single: "check_of e = None \<Longrightarrow> guarded [e]"
  by (auto simp: guarded_def Cons_eq_append_conv)

lemma guarded_metaRecv: "guarded [metaList_ctxErr g False, metaList_Recv g x]"
  by (auto simp: guarded_def Cons_eq_append_conv)

lemma guarded_msgRecv: "guarded [msgList_ctxErr g False, msgList_Recv g x]"
  by (auto simp: guarded_def Cons_eq_append_conv)

lemma guarded_Cons [simp]: "check_of e = None \<Longrightarrow> guarded t \<Longrightarrow> guarded (e # t)"
  using guarded_append [OF guarded_single, of e t] by simp

lemma guarded_metaRecv_Cons [simp]:
  "guarded t \<Longrightarrow> guarded (metaList_ctxErr g False # metaList_Recv g x # t)"
  using guarded_append [OF guarded_metaRecv, of t g x] by simp

lemma guarded_msgRecv_Cons [simp]:
  "guarded t \<Longrightarrow> guarded (msgList_ctxErr g False # msgList_Recv g x # t)"
  using guarded_append [OF guarded_msgRecv, of t g x] by simp










text \<open>A property of traces closed under append that holds of the empty trace, of every single
  call outside the drains and of every drain holds of every replay.\<close>

lemma local_replayConversation:
  assumes app: "\<And>a b. P a \<Longrightarrow> P b \<Longrightarrow> P (a @ b)"
    and single: "\<And>e. kind_of e = Setup \<Longrightarrow> P [e]"
    and md: "\<And>g w. P (events (processMetadataList E g w))"
    and msg: "\<And>g w. P (events (processMessageList E g w))"
    and run: "replayConversation E H conv w = (r, w', t)"
  shows "P t"
  using run
proof (cases rule: replayConversation_cases)
  case (bad_key err)
  then show ?thesis by (simp add: single)
next
  case (home rs ts)
  have "P ([b64DecodeBytes_call (PublicKey conv) (Inr H)] @ ts)"
    using msg [of H w] home by (intro app single) simp_all
  with home show ?thesis by simp
next
  case (not_activated g err)
  have "P ([b64DecodeBytes_call (PublicKey conv) (Inr g)] @ [ActivateGroup_call g True (Some err)])"
    by (intro app single) simp_all
  with not_activated show ?thesis by simp
next
  case (metadata_failed g w1 err tm)
  have "P ([b64DecodeBytes_call (PublicKey conv) (Inr g)] @ [ActivateGroup_call g True None] @ tm)"
    using md [of g w1] metadata_failed by (intro app single) simp_all
  with metadata_failed show ?thesis by simp
next
  case (message_failed g w1 w2 tm err ts)
  have "P ([b64DecodeBytes_call (PublicKey conv) (Inr g)] @ [ActivateGroup_call g True None] @ tm @ ts)"
    using md [of g w1] msg [of g w2] message_failed by (intro app single) simp_all
  with message_failed show ?thesis by simp
next
  case (drained g w1 w2 w3 tm ts rd)
  have "P ([b64DecodeBytes_call (PublicKey conv) (Inr g)] @ [ActivateGroup_call g True None] @ tm @ ts
      @ [DeactivateGroup_call g rd])"
    using md [of g w1] msg [of g w2] drained by (intro app single) simp_all
  with drained show ?thesis by simp
qed

lemma local_replayConversations:
  assumes app: "\<And>a b. P a \<Longrightarrow> P b \<Longrightarrow> P (a @ b)" and nil: "P []"
    and single: "\<And>e. kind_of e = Setup \<Longrightarrow> P [e]"
    and md: "\<And>g w. P (events (processMetadataList E g w))"
    and msg: "\<And>g w. P (events (processMessageList E g w))"
  shows "replayConversations E H convs w = (r, w', t) \<Longrightarrow> P t"
proof (induction convs arbitrary: w t)
  case Nil
  then show ?case by (simp add: nil)
next
  case (Cons conv convs)
  from Cons.prems show ?case
  proof (cases rule: replayConversations_cases)
    case (stopped err)
    then show ?thesis using local_replayConversation [of P E H conv w] app single md msg by blast
  next
    case (next_conversation w1 t1 t2)
    have "P t1" using local_replayConversation [of P E H conv w, OF app single md msg next_conversation(1)] .
    moreover have "P t2" using Cons.IH next_conversation(2) .
    ultimately show ?thesis using next_conversation(3) app by simp
  qed
qed

lemma local_replayLogsToDB:
  assumes app: "\<And>a b. P a \<Longrightarrow> P b \<Longrightarrow> P (a @ b)" and nil: "P []"
    and single: "\<And>e. kind_of e = Setup \<Longrightarrow> P [e]"
    and md: "\<And>g w. P (events (processMetadataList E g w))"
    and msg: "\<And>g w. P (events (processMessageList E g w))"
    and run: "replayLogsToDB E w = (r, w', t)"
  shows "P t"
  using run
proof (cases rule: replayLogsToDB_cases)
  case (no_configuration err)
  then show ?thesis by (simp add: single)
next
  case (no_account cfg err)
  have "P ([InstanceGetConfiguration_call (Inr cfg)] @
      [addAccount_call (b64EncodeBytes E (AccountGroupPK cfg)) [] (Some err)])"
    by (intro app single) simp_all
  with no_account show ?thesis by simp
next
  case (metadata_failed cfg w2 err tm)
  have "P ([InstanceGetConfiguration_call (Inr cfg)] @
      [addAccount_call (b64EncodeBytes E (AccountGroupPK cfg)) [] None] @ tm)"
    using md [of "AccountGroupPK cfg" w2] metadata_failed by (intro app single) simp_all
  with metadata_failed show ?thesis by simp
next
  case (not_listed cfg w2 w3 tm err)
  have "P ([InstanceGetConfiguration_call (Inr cfg)] @
      [addAccount_call (b64EncodeBytes E (AccountGroupPK cfg)) [] None] @ tm @
      [getAllConversations_call (Inl err)])"
    using md [of "AccountGroupPK cfg" w2] not_listed by (intro app single) simp_all
  with not_listed show ?thesis by simp
next
  case (listed cfg w2 w3 tm convs w4 tl)
  have "P tl" using local_replayConversations [of P E, OF app nil single md msg listed(3)] .
  then have "P ([InstanceGetConfiguration_call (Inr cfg)] @
      [addAccount_call (b64EncodeBytes E (AccountGroupPK cfg)) [] None] @ tm @
      [getAllConversations_call (Inr convs)] @ tl)"
    using md [of "AccountGroupPK cfg" w2] listed by (intro app single) simp_all
  with listed show ?thesis by simp
qed

lemma md_applied_simps [simp]:
  "md_applied g [] = []"
  "md_applied g (e # t) = md_apply_of g e @ md_applied g t"
  "md_applied g (a @ b) = md_applied g a @ md_applied g b"
  by (simp_all add: md_applied_def)

lemma md_opened_simps [simp]:
  "md_opened g [] = []"
  "md_opened g (e # t) = md_open_of g e @ md_opened g t"
  "md_opened g (a @ b) = md_opened g a @ md_opened g b"
  by (simp_all add: md_opened_def)

lemma metaList_loop_cases:
  assumes "metaList_loop E g ms fin w = (r, w', t)"
  obtains (cancelled) "t = [metaList_ctxErr g True]" "r = Some (WithCode ErrEventListMetadata None)"
  | (finished) "ms = []" "t = [metaList_ctxErr g False, metaList_Recv g (Inl fin)]"
      "r = (if fin = EOF then None else Some (WithCode ErrEventListMetadata (Some fin)))"
  | (rejected) m rest err where "ms = m # rest"
      "t = [metaList_ctxErr g False, metaList_Recv g (Inr m), handleMetadataEvent_call g m (Some err)]"
      "r = Some err"
  | (applied) m rest w1 tl where "ms = m # rest"
      "t = [metaList_ctxErr g False, metaList_Recv g (Inr m), handleMetadataEvent_call g m None] @ tl"
      "metaList_loop E g rest fin w1 = (r, w', tl)"
proof (cases "subCtxErr E w")
  case True
  with assms show thesis by (intro cancelled; cases ms) (auto simp: Wrap_def)
next
  case False
  show thesis
  proof (cases ms)
    case Nil
    with False assms show thesis by (intro finished) (auto simp: Wrap_def split: if_splits)
  next
    case (Cons m rest)
    obtain rh w1 where h: "handleMetadataEvent E m w = (rh, w1)"
      by (cases "handleMetadataEvent E m w")
    show thesis
    proof (cases rh)
      case (Some err)
      with False Cons h assms show thesis
        by (intro rejected [where m = m and rest = rest and err = err]) (auto simp: call_def)
    next
      case None
      obtain r2 w2 t2 where l: "metaList_loop E g rest fin w1 = (r2, w2, t2)"
        by (cases "metaList_loop E g rest fin w1")
      with False Cons h None assms show thesis
        by (intro applied [where m = m and rest = rest and tl = t2 and ?w1.0 = w1])
           (auto simp: call_def)
    qed
  qed
qed

lemma metaList_loop_summary:
  "metaList_loop E g ms fin w = (r, w', t) \<Longrightarrow>
     md_opened g' t = [] \<and>
     (\<exists>n. md_applied g t = take n ms) \<and>
     (\<forall>x. metaList_Recv g (Inl x) \<in> set t \<longrightarrow> x = fin \<and> md_applied g t = ms) \<and>
     (metaList_Recv g (Inl fin) \<in> set t \<or> (\<exists>e\<in>set t. failed e))"
proof (induction ms arbitrary: w t)
  case Nil
  from Nil.prems show ?case
    by (cases rule: metaList_loop_cases) (auto simp: failed_def wrapped_def Wrap_def)
next
  case (Cons m ms)
  from Cons.prems show ?case
  proof (cases rule: metaList_loop_cases)
    case cancelled
    then show ?thesis by (auto simp: failed_def wrapped_def Wrap_def intro: exI [of _ 0])
  next
    case finished
    then show ?thesis by simp
  next
    case (rejected m' rest err)
    then show ?thesis
      by (auto simp: failed_def wrapped_def Wrap_def intro: exI [of _ 1])
  next
    case (applied m' rest w1 tl)
    from applied(1) have [simp]: "m' = m" "rest = ms" by simp_all
    from Cons.IH [of w1 tl] applied(3)
    have o: "md_opened g' tl = []"
      and n: "\<exists>n. md_applied g tl = take n ms"
      and f: "\<forall>x. metaList_Recv g (Inl x) \<in> set tl \<longrightarrow> x = fin \<and> md_applied g tl = ms"
      and e: "metaList_Recv g (Inl fin) \<in> set tl \<or> (\<exists>e\<in>set tl. failed e)"
      by simp_all
    from n obtain k where k: "md_applied g tl = take k ms" ..
    have "md_applied g t = take (Suc k) (m # ms)" using applied(2) k by simp
    then have "\<exists>n. md_applied g t = take n (m # ms)" ..
    with o f e applied(2) show ?thesis by auto
  qed
qed

lemma md_apply_of_group: "md_apply_of g e \<noteq> [] \<Longrightarrow> kind_of e = MetadataDrain \<and> group_of e = Some g"
  by (cases e) (auto split: if_splits)

lemma md_applied_none:
  "\<forall>e\<in>set s. \<not> (kind_of e = MetadataDrain \<and> group_of e = Some g) \<Longrightarrow> md_applied g s = []"
  by (induction s) (auto dest: md_apply_of_group)

lemma md_open_of_group: "md_open_of g e \<noteq> [] \<Longrightarrow> kind_of e = MetadataDrain \<and> group_of e = Some g"
  by (cases e) (auto split: if_splits)

lemma md_opened_none:
  "\<forall>e\<in>set s. \<not> (kind_of e = MetadataDrain \<and> group_of e = Some g) \<Longrightarrow> md_opened g s = []"
  by (induction s) (auto dest: md_open_of_group)

lemma md_ok_none:
  "\<forall>e\<in>set s. \<not> (kind_of e = MetadataDrain \<and> group_of e = Some g) \<Longrightarrow> md_ok g s"
  by (simp add: md_ok_def md_opened_none)

lemma md_ok_Nil: "md_ok g []"
  by (simp add: md_ok_def)

lemma md_ok_single: "kind_of e = Setup \<Longrightarrow> md_ok g [e]"
  by (cases e) (simp_all add: md_ok_def)

lemma md_ok_opened:
  assumes "md_ok g s" and "md_opened g s = [Inr (ms, fin)]"
  shows "\<exists>n. md_applied g s = take n ms"
    and "\<And>x. metaList_Recv g (Inl x) \<in> set s \<Longrightarrow> x = fin \<and> md_applied g s = ms"
    and "metaList_Recv g (Inl fin) \<in> set s \<or> (\<exists>e\<in>set s. failed e)"
  using assms unfolding md_ok_def by blast+

lemma md_ok_closed:
  assumes "md_ok g s" and "md_opened g s = []"
  shows "\<forall>e\<in>set s. \<not> (kind_of e = MetadataDrain \<and> group_of e = Some g)"
  using assms unfolding md_ok_def by blast

lemma md_ok_append:
  assumes a: "md_ok g a" and b: "md_ok g b"
  shows "md_ok g (a @ b)"
proof -
  have none: "md_opened g a @ md_opened g b = [] \<Longrightarrow>
      \<forall>e\<in>set (a @ b). \<not> (kind_of e = MetadataDrain \<and> group_of e = Some g)"
    using md_ok_closed [OF a] md_ok_closed [OF b] by auto
  have one: "(\<exists>n. md_applied g (a @ b) = take n ms) \<and>
         (\<forall>x. metaList_Recv g (Inl x) \<in> set (a @ b) \<longrightarrow> x = fin \<and> md_applied g (a @ b) = ms) \<and>
         (metaList_Recv g (Inl fin) \<in> set (a @ b) \<or> (\<exists>e\<in>set (a @ b). failed e))"
    if o: "md_opened g a @ md_opened g b = [Inr (ms, fin)]" for ms fin
  proof -
    from o consider (left) "md_opened g a = [Inr (ms, fin)]" "md_opened g b = []"
      | (right) "md_opened g a = []" "md_opened g b = [Inr (ms, fin)]"
      by (auto simp: append_eq_Cons_conv Cons_eq_append_conv)
    then show ?thesis
    proof cases
      case left
      from left(2) b have nb: "\<forall>e\<in>set b. \<not> (kind_of e = MetadataDrain \<and> group_of e = Some g)"
        by (intro md_ok_closed)
      then have "md_applied g b = []" by (rule md_applied_none)
      moreover have "metaList_Recv g (Inl x) \<notin> set b" for x using nb by auto
      ultimately show ?thesis using md_ok_opened [OF a left(1)] by simp blast
    next
      case right
      from right(1) a have na: "\<forall>e\<in>set a. \<not> (kind_of e = MetadataDrain \<and> group_of e = Some g)"
        by (intro md_ok_closed)
      then have "md_applied g a = []" by (rule md_applied_none)
      moreover have "metaList_Recv g (Inl x) \<notin> set a" for x using na by auto
      ultimately show ?thesis using md_ok_opened [OF b right(2)] by simp blast
    qed
  qed
  have two: "\<forall>ms fin. md_opened g (a @ b) = [Inr (ms, fin)] \<longrightarrow>
         (\<exists>n. md_applied g (a @ b) = take n ms) \<and>
         (\<forall>x. metaList_Recv g (Inl x) \<in> set (a @ b) \<longrightarrow> x = fin \<and> md_applied g (a @ b) = ms) \<and>
         (metaList_Recv g (Inl fin) \<in> set (a @ b) \<or> (\<exists>e\<in>set (a @ b). failed e))"
  proof (intro allI impI)
    fix ms fin assume "md_opened g (a @ b) = [Inr (ms, fin)]"
    then have o: "md_opened g a @ md_opened g b = [Inr (ms, fin)]" by simp
    show "(\<exists>n. md_applied g (a @ b) = take n ms) \<and>
         (\<forall>x. metaList_Recv g (Inl x) \<in> set (a @ b) \<longrightarrow> x = fin \<and> md_applied g (a @ b) = ms) \<and>
         (metaList_Recv g (Inl fin) \<in> set (a @ b) \<or> (\<exists>e\<in>set (a @ b). failed e))"
      by (rule one [OF o])
  qed
  have zero: "md_opened g (a @ b) = [] \<longrightarrow>
      (\<forall>e\<in>set (a @ b). \<not> (kind_of e = MetadataDrain \<and> group_of e = Some g))"
    using none by simp
  from zero two show ?thesis unfolding md_ok_def by (rule conjI)
qed

lemma md_ok_processMetadataList: "md_ok g (events (processMetadataList E k w))"
proof -
  obtain r w' t where run: "processMetadataList E k w = (r, w', t)"
    by (cases "processMetadataList E k w")
  have grp: "\<forall>e\<in>set t. kind_of e = MetadataDrain \<and> group_of e = Some k"
    using all_processMetadataList [of E k w] run by simp
  from run have "md_ok g t"
  proof (cases rule: processMetadataList_cases)
    case (not_opened err)
    then show ?thesis by (simp add: md_ok_def)
  next
    case (opened ms fin w1 tl)
    show ?thesis
    proof (cases "g = k")
      case True
      with metaList_loop_summary [OF opened(2), of k] opened(1) show ?thesis
        by (auto simp: md_ok_def failed_def left_error_def)
    next
      case False
      with grp show ?thesis by (intro md_ok_none) auto
    qed
  qed
  with run show ?thesis by simp
qed

lemma md_ok_processMessageList: "md_ok g (events (processMessageList E k w))"
  using all_processMessageList [of E k w] by (intro md_ok_none) auto

lemma md_ok_replayLogsToDB:
  assumes "replayLogsToDB E w = (r, w', t)"
  shows "md_ok g t"
  using md_ok_append md_ok_Nil md_ok_single md_ok_processMetadataList md_ok_processMessageList assms
  by (rule local_replayLogsToDB [where P = "md_ok g"])

lemma split_append:
  assumes "a @ b = pre @ e # post"
  obtains (left) pa where "a = pre @ e # pa" "post = pa @ b"
  | (right) pb where "b = pb @ e # post" "pre = a @ pb"
proof -
  from assms obtain us where
    "a = pre @ us \<and> us @ b = e # post \<or> a @ us = pre \<and> b = us @ e # post"
    unfolding append_eq_append_conv2 by blast
  then show thesis
  proof
    assume l: "a = pre @ us \<and> us @ b = e # post"
    show thesis
    proof (cases us)
      case Nil
      with l show thesis by (intro right [of "[]"]) simp_all
    next
      case (Cons u us')
      with l show thesis by (intro left [of us']) simp_all
    qed
  next
    assume "a @ us = pre \<and> b = us @ e # post"
    then show thesis by (intro right [of us]) simp_all
  qed
qed

lemma no_md_append [simp]: "no_md g (a @ b) = (no_md g a \<and> no_md g b)"
  by (auto simp: no_md_def)

lemma md_opened_no_md: "no_md g s \<Longrightarrow> md_opened g s = []"
  unfolding no_md_def by (rule md_opened_none)

lemma md_after_msg_none:
  assumes "no_md g s"
  shows "md_after_msg g s"
  unfolding md_after_msg_def
proof (intro conjI allI impI)
  show "no_md g s" by (rule assms)
next
  fix pre e post
  assume "s = pre @ e # post \<and> kind_of e = MessageDrain \<and> group_of e = Some g \<and> md_opened g post = []"
  with assms show "no_md g post" by (auto simp: no_md_def)
qed

lemma md_after_msg_no_msg:
  assumes "\<forall>x\<in>set s. kind_of x \<noteq> MessageDrain" and "md_opened g s = [] \<longrightarrow> no_md g s"
  shows "md_after_msg g s"
  unfolding md_after_msg_def using assms by auto

lemma md_after_msg_append:
  assumes a: "md_after_msg g a" and b: "md_after_msg g b"
  shows "md_after_msg g (a @ b)"
  unfolding md_after_msg_def
proof (intro conjI allI impI)
  assume "md_opened g (a @ b) = []"
  with a b show "no_md g (a @ b)" by (simp add: md_after_msg_def)
next
  fix pre e post
  assume h: "a @ b = pre @ e # post \<and> kind_of e = MessageDrain \<and> group_of e = Some g \<and>
      md_opened g post = []"
  then have eq: "a @ b = pre @ e # post" and k: "kind_of e = MessageDrain" "group_of e = Some g"
    and o: "md_opened g post = []" by simp_all
  from eq show "no_md g post"
  proof (cases rule: split_append)
    case (left pa)
    with o have "md_opened g pa = []" "md_opened g b = []" by simp_all
    moreover from a left(1) k have "md_opened g pa = [] \<longrightarrow> no_md g pa"
      unfolding md_after_msg_def by blast
    moreover from b have "md_opened g b = [] \<longrightarrow> no_md g b"
      unfolding md_after_msg_def by blast
    ultimately show ?thesis using left(2) by simp
  next
    case (right pb)
    with b k o show ?thesis unfolding md_after_msg_def by blast
  qed
qed

lemma md_after_msg_processMetadataList: "md_after_msg g (events (processMetadataList E k w))"
proof (rule md_after_msg_no_msg)
  show "\<forall>x\<in>set (events (processMetadataList E k w)). kind_of x \<noteq> MessageDrain"
    using all_processMetadataList [of E k w] by auto
  show "md_opened g (events (processMetadataList E k w)) = [] \<longrightarrow>
      no_md g (events (processMetadataList E k w))"
    using md_ok_closed [OF md_ok_processMetadataList, of g E k w] by (simp add: no_md_def)
qed

lemma md_after_msg_processMessageList: "md_after_msg g (events (processMessageList E k w))"
  using all_processMessageList [of E k w] by (intro md_after_msg_none) (auto simp: no_md_def)

lemma md_after_msg_single: "kind_of e = Setup \<Longrightarrow> md_after_msg g [e]"
  by (intro md_after_msg_none) (simp add: no_md_def)

lemma md_after_msg_Nil: "md_after_msg g []"
  by (intro md_after_msg_none) (simp add: no_md_def)

lemma md_after_msg_replayLogsToDB:
  assumes "replayLogsToDB E w = (r, w', t)"
  shows "md_after_msg g t"
  using md_after_msg_append md_after_msg_Nil md_after_msg_single
    md_after_msg_processMetadataList md_after_msg_processMessageList assms
  by (rule local_replayLogsToDB [where P = "md_after_msg g"])

lemma opened_first_append:
  "opened_first g seen (a @ b) =
     (opened_first g seen a \<and> opened_first g (seen \<or> md_opened g a \<noteq> []) b)"
  by (induction a arbitrary: seen) auto

lemma opened_first_True: "opened_first g True s"
  by (induction s) auto

lemma opened_first_none:
  "\<forall>e\<in>set s. \<not> (kind_of e = MessageDrain \<and> group_of e = Some g) \<Longrightarrow> opened_first g seen s"
  by (induction s arbitrary: seen) auto

lemma opened_first_split:
  "opened_first g seen t \<Longrightarrow> t = pre @ e # post \<Longrightarrow> kind_of e = MessageDrain \<Longrightarrow>
   group_of e = Some g \<Longrightarrow> seen \<or> md_opened g pre \<noteq> []"
  by (induction pre arbitrary: seen t) auto

lemma md_opened_processMetadataList:
  assumes "processMetadataList E k w = (r, w', t)"
  shows "md_opened k t \<noteq> []"
  using assms by (cases rule: processMetadataList_cases) simp_all

lemma opened_first_metadata:
  assumes "processMetadataList E k w = (r, w', t)"
  shows "opened_first g seen t"
  using all_processMetadataList [of E k w] assms by (intro opened_first_none) auto

lemma opened_first_message:
  assumes "processMessageList E k w = (r, w', t)" and "g = k \<longrightarrow> seen"
  shows "opened_first g seen t"
proof (cases "g = k")
  case True
  with assms(2) show ?thesis by (simp add: opened_first_True)
next
  case False
  with all_processMessageList [of E k w] assms(1) show ?thesis
    by (intro opened_first_none) auto
qed

lemma opened_first_replayConversation:
  assumes "replayConversation E H conv w = (r, w', t)" and "g = H \<longrightarrow> seen"
  shows "opened_first g seen t"
  using assms(1)
proof (cases rule: replayConversation_cases)
  case (bad_key err)
  then show ?thesis by simp
next
  case (home rs ts)
  with assms(2) show ?thesis by (simp add: opened_first_message)
next
  case (not_activated k err)
  then show ?thesis by simp
next
  case (metadata_failed k w1 err tm)
  then show ?thesis by (simp add: opened_first_metadata)
next
  case (message_failed k w1 w2 tm err ts)
  have "opened_first g (seen \<or> md_opened g tm \<noteq> []) ts"
    using md_opened_processMetadataList [OF message_failed(4)]
    by (intro opened_first_message [OF message_failed(5)]) auto
  with message_failed show ?thesis
    by (simp add: opened_first_append opened_first_metadata)
next
  case (drained k w1 w2 w3 tm ts rd)
  have "opened_first g (seen \<or> md_opened g tm \<noteq> []) ts"
    using md_opened_processMetadataList [OF drained(4)]
    by (intro opened_first_message [OF drained(5)]) auto
  with drained show ?thesis
    by (simp add: opened_first_append opened_first_metadata)
qed

lemma opened_first_replayConversations:
  "replayConversations E H convs w = (r, w', t) \<Longrightarrow> g = H \<longrightarrow> seen \<Longrightarrow> opened_first g seen t"
proof (induction convs arbitrary: w t seen)
  case Nil
  then show ?case by simp
next
  case (Cons conv convs)
  from Cons.prems(1) show ?case
  proof (cases rule: replayConversations_cases)
    case (stopped err)
    with Cons.prems(2) show ?thesis by (auto intro: opened_first_replayConversation)
  next
    case (next_conversation w1 t1 t2)
    have "opened_first g seen t1"
      using next_conversation(1) Cons.prems(2) by (rule opened_first_replayConversation)
    moreover have "opened_first g (seen \<or> md_opened g t1 \<noteq> []) t2"
      using next_conversation(2) Cons.prems(2) by (intro Cons.IH) auto
    ultimately show ?thesis using next_conversation(3) by (simp add: opened_first_append)
  qed
qed

lemma opened_first_replayLogsToDB:
  assumes "replayLogsToDB E w = (r, w', t)"
  shows "opened_first g False t"
  using assms
proof (cases rule: replayLogsToDB_cases)
  case (no_configuration err)
  then show ?thesis by simp
next
  case (no_account cfg err)
  then show ?thesis by simp
next
  case (metadata_failed cfg w2 err tm)
  then show ?thesis by (simp add: opened_first_metadata)
next
  case (not_listed cfg w2 w3 tm err)
  then show ?thesis by (simp add: opened_first_append opened_first_metadata)
next
  case (listed cfg w2 w3 tm convs w4 tl)
  have "opened_first g (md_opened g tm \<noteq> []) tl"
    using md_opened_processMetadataList [OF listed(2)]
    by (intro opened_first_replayConversations [OF listed(3)]) auto
  with listed show ?thesis by (simp add: opened_first_append opened_first_metadata)
qed

lemma message_after_open:
  assumes "replayLogsToDB E w = (r, w', t)" and "t = pre @ e # post"
    and "kind_of e = MessageDrain" and "group_of e = Some g"
  shows "md_opened g pre \<noteq> []"
  using opened_first_split [OF opened_first_replayLogsToDB [OF assms(1)] assms(2,3,4)] by simp

lemma succeeded_no_failure:
  assumes "replayLogsToDB E w = (None, w', t)"
  shows "\<forall>e\<in>set t. \<not> failed e"
  using fail_fast_replayLogsToDB [of E w] assms by (simp add: fail_fast_def failed_def)

lemma failed_ends:
  assumes "replayLogsToDB E w = (r, w', t)" and "t = pre @ e # post" and "failed e"
  shows "post = [] \<and> r = replay_error e"
proof -
  from replayLogsToDB_result [OF assms(1)]
  have b: "\<forall>e\<in>set (butlast t). \<not> failed e" and r: "r = replay_error (last t)" by simp_all
  have "post = []"
  proof (rule ccontr)
    assume "post \<noteq> []"
    then have "butlast t = pre @ e # butlast post" using assms(2) by (simp add: butlast_append)
    with b assms(3) show False by simp
  qed
  with r assms(2) show ?thesis by simp
qed

lemma msg_applied_simps [simp]:
  "msg_applied g [] = []"
  "msg_applied g (e # t) = msg_apply_of g e @ msg_applied g t"
  "msg_applied g (a @ b) = msg_applied g a @ msg_applied g b"
  by (simp_all add: msg_applied_def)

lemma msg_received_simps [simp]:
  "msg_received g [] = []"
  "msg_received g (e # t) = msg_recv_of g e @ msg_received g t"
  "msg_received g (a @ b) = msg_received g a @ msg_received g b"
  by (simp_all add: msg_received_def)

lemma msg_opened_simps [simp]:
  "msg_opened g [] = []"
  "msg_opened g (e # t) = msg_open_of g e @ msg_opened g t"
  "msg_opened g (a @ b) = msg_opened g a @ msg_opened g b"
  by (simp_all add: msg_opened_def)

lemma no_msg_append [simp]: "no_msg g (a @ b) = (no_msg g a \<and> no_msg g b)"
  by (auto simp: no_msg_def)

lemma msg_apply_of_group: "msg_apply_of g e \<noteq> [] \<Longrightarrow> kind_of e = MessageDrain \<and> group_of e = Some g"
  by (cases e) (auto split: if_splits)

lemma msg_recv_of_group: "msg_recv_of g e \<noteq> [] \<Longrightarrow> kind_of e = MessageDrain \<and> group_of e = Some g"
  by (cases e) (auto split: if_splits sum.splits)

lemma msg_open_of_group: "msg_open_of g e \<noteq> [] \<Longrightarrow> kind_of e = MessageDrain \<and> group_of e = Some g"
  by (cases e) (auto split: if_splits)

lemma no_msg_applied: "no_msg g s \<Longrightarrow> msg_applied g s = []"
  by (induction s) (auto simp: no_msg_def dest: msg_apply_of_group)

lemma no_msg_received: "no_msg g s \<Longrightarrow> msg_received g s = []"
  by (induction s) (auto simp: no_msg_def dest: msg_recv_of_group)

lemma no_msg_opened: "no_msg g s \<Longrightarrow> msg_opened g s = []"
  by (induction s) (auto simp: no_msg_def dest: msg_open_of_group)

lemma no_msg_Unmarshal: "no_msg g s \<Longrightarrow> Unmarshal_call g p x \<notin> set s"
  by (auto simp: no_msg_def)

lemma msgList_loop_cases:
  assumes "msgList_loop E g s ms fin w = (r, w', t)"
  obtains (cancelled) "t = [msgList_ctxErr g True]" "r = Some (WithCode ErrEventListMessage None)"
  | (finished) "ms = []" "t = [msgList_ctxErr g False, msgList_Recv g (Inl fin)]"
      "r = (if fin = EOF then None else Some (WithCode ErrEventListMessage (Some fin)))"
  | (malformed) m rest err where "ms = m # rest" "Unmarshal E (Message m) = Inl err"
      "t = [msgList_ctxErr g False, msgList_Recv g (Inr m), Unmarshal_call g (Message m) (Inl err)]"
      "r = Some (WithCode ErrDeserialization (Some err))"
  | (rejected) m rest a err where "ms = m # rest" "Unmarshal E (Message m) = Inr a"
      "t = [msgList_ctxErr g False, msgList_Recv g (Inr m), Unmarshal_call g (Message m) (Inr a),
            handleAppMessage_call g s m a (Some err)]"
      "r = Some (WithCode TODO (Some err))"
  | (applied) m rest a w1 tl where "ms = m # rest" "Unmarshal E (Message m) = Inr a"
      "t = [msgList_ctxErr g False, msgList_Recv g (Inr m), Unmarshal_call g (Message m) (Inr a),
            handleAppMessage_call g s m a None] @ tl"
      "msgList_loop E g s rest fin w1 = (r, w', tl)"
proof (cases "subCtxErr E w")
  case True
  with assms show thesis by (intro cancelled; cases ms) (auto simp: Wrap_def)
next
  case False
  show thesis
  proof (cases ms)
    case Nil
    with False assms show thesis by (intro finished) (auto simp: Wrap_def split: if_splits)
  next
    case (Cons m rest)
    show thesis
    proof (cases "Unmarshal E (Message m)")
      case (Inl err)
      with False Cons assms show thesis
        by (intro malformed [where m = m and rest = rest and err = err]) (auto simp: Wrap_def)
    next
      case (Inr a)
      obtain rh w1 where h: "handleAppMessage E s m a w = (rh, w1)"
        by (cases "handleAppMessage E s m a w")
      show thesis
      proof (cases rh)
        case (Some err)
        with False Cons Inr h assms show thesis
          by (intro rejected [where m = m and rest = rest and a = a and err = err])
             (auto simp: call_def wrapWith_def Wrap_def)
      next
        case None
        obtain r2 w2 t2 where l: "msgList_loop E g s rest fin w1 = (r2, w2, t2)"
          by (cases "msgList_loop E g s rest fin w1")
        with False Cons Inr h None assms show thesis
          by (intro applied [where m = m and rest = rest and a = a and tl = t2 and ?w1.0 = w1])
             (auto simp: call_def wrapWith_def)
      qed
    qed
  qed
qed

lemma msgList_loop_summary:
  "msgList_loop E g s ms fin w = (r, w', t) \<Longrightarrow>
     msg_opened g' t = [] \<and>
     (\<exists>n. msg_applied g t = take n ms) \<and>
     (\<forall>p err. Unmarshal_call g p (Inl err) \<in> set t \<longrightarrow>
        (\<exists>i<length ms. Message (ms ! i) = p \<and> Unmarshal E p = Inl err \<and>
           msg_applied g t = take i ms \<and> msg_received g t = take (Suc i) ms))"
proof (induction ms arbitrary: w t)
  case Nil
  from Nil.prems show ?case
    by (cases rule: msgList_loop_cases) auto
next
  case (Cons m ms)
  from Cons.prems show ?case
  proof (cases rule: msgList_loop_cases)
    case cancelled
    then show ?thesis by (auto intro: exI [of _ 0])
  next
    case finished
    then show ?thesis by simp
  next
    case (malformed m' rest err)
    then show ?thesis by (auto intro: exI [of _ 0])
  next
    case (rejected m' rest a err)
    then show ?thesis by (auto intro: exI [of _ 1])
  next
    case (applied m' rest a w1 tl)
    from applied(1) have [simp]: "m' = m" "rest = ms" by simp_all
    from Cons.IH [of w1 tl] applied(4)
    have o: "msg_opened g' tl = []"
      and n: "\<exists>n. msg_applied g tl = take n ms"
      and f: "\<forall>p err. Unmarshal_call g p (Inl err) \<in> set tl \<longrightarrow>
        (\<exists>i<length ms. Message (ms ! i) = p \<and> Unmarshal E p = Inl err \<and>
           msg_applied g tl = take i ms \<and> msg_received g tl = take (Suc i) ms)"
      by simp_all
    from n obtain k where k: "msg_applied g tl = take k ms" ..
    have "msg_applied g t = take (Suc k) (m # ms)" using applied(3) k by simp
    then have a: "\<exists>n. msg_applied g t = take n (m # ms)" ..
    have b: "\<exists>i<length (m # ms). Message ((m # ms) ! i) = p \<and> Unmarshal E p = Inl err \<and>
           msg_applied g t = take i (m # ms) \<and> msg_received g t = take (Suc i) (m # ms)"
      if u: "Unmarshal_call g p (Inl err) \<in> set t" for p err
    proof -
      from u applied(3) have "Unmarshal_call g p (Inl err) \<in> set tl" by auto
      with f obtain i where i: "i < length ms" "Message (ms ! i) = p" "Unmarshal E p = Inl err"
        "msg_applied g tl = take i ms" "msg_received g tl = take (Suc i) ms" by blast
      have "Suc i < length (m # ms)" using i(1) by simp
      moreover have "Message ((m # ms) ! Suc i) = p" using i(2) by simp
      moreover have "msg_applied g t = take (Suc i) (m # ms)" using applied(3) i(4) by simp
      moreover have "msg_received g t = take (Suc (Suc i)) (m # ms)" using applied(3) i(5) by simp
      ultimately show ?thesis using i(3) by blast
    qed
    from o a b applied(3) show ?thesis by simp
  qed
qed

lemma accounts_added_simps [simp]:
  "accounts_added [] = []"
  "accounts_added (e # t) = account_of e @ accounts_added t"
  "accounts_added (a @ b) = accounts_added a @ accounts_added b"
  by (simp_all add: accounts_added_def)

lemma decoded_simps [simp]:
  "decoded [] = []"
  "decoded (e # t) = decode_of e @ decoded t"
  "decoded (a @ b) = decoded a @ decoded b"
  by (simp_all add: decoded_def)

lemma decoded_drain: "\<forall>e\<in>set s. kind_of e \<noteq> Setup \<Longrightarrow> decoded s = []"
proof (induction s)
  case Nil
  show ?case by simp
next
  case (Cons e s)
  then have "kind_of e \<noteq> Setup" by simp
  then have "decode_of e = []" by (cases e) simp_all
  with Cons show ?case by simp
qed

lemma accounts_added_drain: "\<forall>e\<in>set s. kind_of e \<noteq> Setup \<Longrightarrow> accounts_added s = []"
proof (induction s)
  case Nil
  show ?case by simp
next
  case (Cons e s)
  then have "kind_of e \<noteq> Setup" by simp
  then have "account_of e = []" by (cases e) simp_all
  with Cons show ?case by simp
qed

lemma metadata_drain_kind:
  assumes "processMetadataList E g w = (r, w', t)"
  shows "\<forall>e\<in>set t. kind_of e = MetadataDrain \<and> group_of e = Some g"
  using all_processMetadataList [of E g w] assms by simp

lemma message_drain_kind:
  assumes "processMessageList E g w = (r, w', t)"
  shows "\<forall>e\<in>set t. kind_of e = MessageDrain \<and> group_of e = Some g"
  using all_processMessageList [of E g w] assms by simp

lemma loop_call_mono:
  "loop_call E H convs e \<Longrightarrow> set convs \<subseteq> set convs' \<Longrightarrow> loop_call E H convs' e"
  unfolding loop_call_def by blast

lemma loop_call_replayConversation:
  assumes "replayConversation E H conv w = (r, w', t)"
  shows "\<forall>e\<in>set t. loop_call E H [conv] e"
  using assms
proof (cases rule: replayConversation_cases)
  case (bad_key err)
  then show ?thesis by (simp add: loop_call_def)
next
  case (home rs ts)
  with message_drain_kind [OF home(3)] show ?thesis by (auto simp: loop_call_def)
next
  case (not_activated g err)
  then show ?thesis by (simp add: loop_call_def)
next
  case (metadata_failed g w1 err tm)
  with metadata_drain_kind [OF metadata_failed(4)] show ?thesis by (auto simp: loop_call_def)
next
  case (message_failed g w1 w2 tm err ts)
  with metadata_drain_kind [OF message_failed(4)] message_drain_kind [OF message_failed(5)]
  show ?thesis by (auto simp: loop_call_def)
next
  case (drained g w1 w2 w3 tm ts rd)
  with metadata_drain_kind [OF drained(4)] message_drain_kind [OF drained(5)]
  show ?thesis by (auto simp: loop_call_def)
qed

lemma loop_call_replayConversations:
  "replayConversations E H convs w = (r, w', t) \<Longrightarrow> \<forall>e\<in>set t. loop_call E H convs e"
proof (induction convs arbitrary: w t)
  case Nil
  then show ?case by simp
next
  case (Cons conv convs)
  from Cons.prems show ?case
  proof (cases rule: replayConversations_cases)
    case (stopped err)
    from loop_call_replayConversation [OF stopped(1)] show ?thesis
      by (auto intro: loop_call_mono)
  next
    case (next_conversation w1 t1 t2)
    from loop_call_replayConversation [OF next_conversation(1)] Cons.IH [OF next_conversation(2)]
      next_conversation(3)
    show ?thesis by (auto intro: loop_call_mono)
  qed
qed

lemma decoded_replayConversation:
  assumes "replayConversation E H conv w = (r, w', t)"
  shows "decoded t = [PublicKey conv] \<and> (r = None \<longrightarrow> (\<exists>g. b64DecodeBytes E (PublicKey conv) = Inr g))"
  using assms
proof (cases rule: replayConversation_cases)
  case (bad_key err)
  then show ?thesis by simp
next
  case (home rs ts)
  with message_drain_kind [OF home(3)] show ?thesis by (simp add: decoded_drain)
next
  case (not_activated g err)
  then show ?thesis by simp
next
  case (metadata_failed g w1 err tm)
  with metadata_drain_kind [OF metadata_failed(4)] show ?thesis by (simp add: decoded_drain)
next
  case (message_failed g w1 w2 tm err ts)
  with metadata_drain_kind [OF message_failed(4)] message_drain_kind [OF message_failed(5)]
  show ?thesis by (simp add: decoded_drain)
next
  case (drained g w1 w2 w3 tm ts rd)
  with metadata_drain_kind [OF drained(4)] message_drain_kind [OF drained(5)]
  show ?thesis by (simp add: decoded_drain)
qed

lemma decoded_replayConversations:
  "replayConversations E H convs w = (r, w', t) \<Longrightarrow>
     (\<exists>n. decoded t = map PublicKey (take n convs)) \<and>
     (r = None \<longrightarrow> (\<forall>c\<in>set convs. \<exists>g. b64DecodeBytes E (PublicKey c) = Inr g))"
proof (induction convs arbitrary: w t)
  case Nil
  then show ?case by simp
next
  case (Cons conv convs)
  from Cons.prems show ?case
  proof (cases rule: replayConversations_cases)
    case (stopped err)
    from decoded_replayConversation [OF stopped(1)]
    have "decoded t = map PublicKey (take 1 (conv # convs))" by simp
    then have "\<exists>n. decoded t = map PublicKey (take n (conv # convs))" ..
    with stopped(2) show ?thesis by simp
  next
    case (next_conversation w1 t1 t2)
    from decoded_replayConversation [OF next_conversation(1)]
    have d1: "decoded t1 = [PublicKey conv]" and g1: "\<exists>g. b64DecodeBytes E (PublicKey conv) = Inr g"
      by simp_all
    from Cons.IH [OF next_conversation(2)] obtain n where
      d2: "decoded t2 = map PublicKey (take n convs)"
      and g2: "r = None \<longrightarrow> (\<forall>c\<in>set convs. \<exists>g. b64DecodeBytes E (PublicKey c) = Inr g)"
      by blast
    have "decoded t = map PublicKey (take (Suc n) (conv # convs))"
      using next_conversation(3) d1 d2 by simp
    then have "\<exists>n. decoded t = map PublicKey (take n (conv # convs))" ..
    with g1 g2 show ?thesis by simp
  qed
qed

lemma later_call_facts:
  assumes "later_call E H e"
  shows "account_of e = []" and "e \<noteq> InstanceGetConfiguration_call x"
    and "e \<noteq> ActivateGroup_call H l y" and "e \<noteq> DeactivateGroup_call H y"
  using assms by (cases e; auto simp: later_call_def loop_call_def)+

lemma configured_run:
  assumes "replayLogsToDB E w = (r, w', t)" and "InstanceGetConfiguration_call (Inr cfg) \<in> set t"
  shows "\<exists>ra rest. t = InstanceGetConfiguration_call (Inr cfg) #
            addAccount_call (b64EncodeBytes E (AccountGroupPK cfg)) [] ra # rest \<and>
          (\<forall>e\<in>set rest. later_call E (AccountGroupPK cfg) e)"
  using assms(1)
proof (cases rule: replayLogsToDB_cases)
  case (no_configuration err)
  with assms(2) show ?thesis by simp
next
  case (no_account cfg' err)
  with assms(2) show ?thesis by auto
next
  case (metadata_failed cfg' w2 err tm)
  from metadata_drain_kind [OF metadata_failed(2)]
  have l: "\<forall>e\<in>set tm. later_call E (AccountGroupPK cfg') e" by (simp add: later_call_def)
  then have "InstanceGetConfiguration_call (Inr cfg) \<notin> set tm"
    using later_call_facts(2) by blast
  with assms(2) metadata_failed(1) have "cfg' = cfg" by auto
  with metadata_failed(1) l show ?thesis by simp
next
  case (not_listed cfg' w2 w3 tm err)
  from metadata_drain_kind [OF not_listed(2)]
  have l: "\<forall>e\<in>set (tm @ [getAllConversations_call (Inl err)]). later_call E (AccountGroupPK cfg') e"
    by (auto simp: later_call_def)
  then have "InstanceGetConfiguration_call (Inr cfg) \<notin> set (tm @ [getAllConversations_call (Inl err)])"
    using later_call_facts(2) by blast
  with assms(2) not_listed(1) have "cfg' = cfg" by auto
  with not_listed(1) l show ?thesis by simp
next
  case (listed cfg' w2 w3 tm convs w4 tl)
  from metadata_drain_kind [OF listed(2)] loop_call_replayConversations [OF listed(3)]
  have l: "\<forall>e\<in>set (tm @ getAllConversations_call (Inr convs) # tl). later_call E (AccountGroupPK cfg') e"
    by (auto simp: later_call_def)
  then have "InstanceGetConfiguration_call (Inr cfg) \<notin> set (tm @ getAllConversations_call (Inr convs) # tl)"
    using later_call_facts(2) by blast
  with assms(2) listed(1) have "cfg' = cfg" by auto
  with listed(1) l show ?thesis by simp
qed

lemma loop_call_not_listing: "loop_call E H convs e \<Longrightarrow> e \<noteq> getAllConversations_call x"
  by (auto simp: loop_call_def)

lemma listed_run:
  assumes "replayLogsToDB E w = (r, w', t)" and "getAllConversations_call (Inr convs) \<in> set t"
  shows "\<exists>cfg pre w4 tl. t = pre @ getAllConversations_call (Inr convs) # tl \<and>
           InstanceGetConfiguration_call (Inr cfg) \<in> set pre \<and> decoded pre = [] \<and>
           (\<forall>e\<in>set pre. kind_of e \<noteq> MessageDrain) \<and>
           replayConversations E (AccountGroupPK cfg) convs w4 = (r, w', tl)"
  using assms(1)
proof (cases rule: replayLogsToDB_cases)
  case (no_configuration err)
  with assms(2) show ?thesis by simp
next
  case (no_account cfg' err)
  with assms(2) show ?thesis by auto
next
  case (metadata_failed cfg' w2 err tm)
  with metadata_drain_kind [OF metadata_failed(2)] assms(2) show ?thesis by auto
next
  case (not_listed cfg' w2 w3 tm err)
  with metadata_drain_kind [OF not_listed(2)] assms(2) show ?thesis by auto
next
  case (listed cfg' w2 w3 tm convs' w4 tl)
  have "getAllConversations_call (Inr convs) \<notin> set tm"
    using metadata_drain_kind [OF listed(2)] by auto
  moreover have "getAllConversations_call (Inr convs) \<notin> set tl"
    using loop_call_replayConversations [OF listed(3)] loop_call_not_listing by blast
  ultimately have "convs' = convs" using assms(2) listed(1) by auto
  let ?pre = "[InstanceGetConfiguration_call (Inr cfg'),
            addAccount_call (b64EncodeBytes E (AccountGroupPK cfg')) [] None] @ tm"
  have "t = ?pre @ getAllConversations_call (Inr convs) # tl"
    using listed(1) \<open>convs' = convs\<close> by simp
  moreover have "InstanceGetConfiguration_call (Inr cfg') \<in> set ?pre" by simp
  moreover have "decoded ?pre = []"
    using metadata_drain_kind [OF listed(2)] by (simp add: decoded_drain)
  moreover have "\<forall>e\<in>set ?pre. kind_of e \<noteq> MessageDrain"
    using metadata_drain_kind [OF listed(2)] by auto
  moreover have "replayConversations E (AccountGroupPK cfg') convs w4 = (r, w', tl)"
    using listed(3) \<open>convs' = convs\<close> by simp
  ultimately show ?thesis by blast
qed

lemma split_after_two:
  assumes "a # b # rest = pre @ e # post" and "e \<noteq> a" and "e \<noteq> b"
  shows "\<exists>pre'. pre = a # b # pre' \<and> rest = pre' @ e # post"
proof (cases pre)
  case Nil
  with assms show ?thesis by simp
next
  case (Cons p ps)
  show ?thesis
  proof (cases ps)
    case Nil
    with Cons assms show ?thesis by simp
  next
    case (Cons q qs)
    with \<open>pre = p # ps\<close> assms show ?thesis by simp
  qed
qed

lemma configuration_unique:
  assumes "replayLogsToDB E w = (r, w', t)" and "InstanceGetConfiguration_call (Inr cfg) \<in> set t"
    and "InstanceGetConfiguration_call (Inr cfg') \<in> set t"
  shows "cfg' = cfg"
proof -
  from configured_run [OF assms(1,2)] obtain ra rest where
    t: "t = InstanceGetConfiguration_call (Inr cfg) #
            addAccount_call (b64EncodeBytes E (AccountGroupPK cfg)) [] ra # rest"
    and l: "\<forall>e\<in>set rest. later_call E (AccountGroupPK cfg) e" by blast
  have "InstanceGetConfiguration_call (Inr cfg') \<notin> set rest"
    using l later_call_facts(2) [of E "AccountGroupPK cfg"] by blast
  with assms(3) t show ?thesis by auto
qed

lemma accounts_added_none: "\<forall>e\<in>set s. account_of e = [] \<Longrightarrow> accounts_added s = []"
  by (induction s) simp_all

lemma activate_step_quiet: "quiet e \<Longrightarrow> activate_step A e = A"
  by (cases e) (simp_all add: quiet_def)

lemma activated_from_simps [simp]:
  "activated_from A [] = A"
  "activated_from A (e # t) = activated_from (activate_step A e) t"
  "activated_from A (a @ b) = activated_from (activated_from A a) b"
  by (simp_all add: activated_from_def)

lemma peak_append: "peak A (a @ b) = max (peak A a) (peak (activated_from A a) b)"
proof (induction a arbitrary: A)
  case Nil
  have "length A \<le> peak A b" by (cases b) simp_all
  then show ?case by simp
next
  case (Cons e a)
  then show ?case by simp
qed

lemma quiet_activated: "\<forall>e\<in>set s. quiet e \<Longrightarrow> activated_from A s = A"
  by (induction s) (simp_all add: activate_step_quiet)

lemma quiet_peak: "\<forall>e\<in>set s. quiet e \<Longrightarrow> peak A s = length A"
  by (induction s) (simp_all add: activate_step_quiet)


lemma metadata_quiet:
  assumes "processMetadataList E g w = (r, w', t)"
  shows "\<forall>e\<in>set t. quiet e"
  using metadata_drain_kind [OF assms] by (simp add: quiet_def)

lemma message_quiet:
  assumes "processMessageList E g w = (r, w', t)"
  shows "\<forall>e\<in>set t. quiet e"
  using message_drain_kind [OF assms] by (simp add: quiet_def)

lemma peak_replayConversation:
  assumes "replayConversation E H conv w = (r, w', t)"
  shows "peak [] t \<le> 1 \<and> (r = None \<longrightarrow> activated_from [] t = [])"
  using assms
proof (cases rule: replayConversation_cases)
  case (bad_key err)
  then show ?thesis by simp
next
  case (home rs ts)
  with message_quiet [OF home(3)] show ?thesis
    by (simp add: quiet_peak quiet_activated)
next
  case (not_activated g err)
  then show ?thesis by simp
next
  case (metadata_failed g w1 err tm)
  with metadata_quiet [OF metadata_failed(4)] show ?thesis
    by (simp add: quiet_peak)
next
  case (message_failed g w1 w2 tm err ts)
  with metadata_quiet [OF message_failed(4)] message_quiet [OF message_failed(5)] show ?thesis
    by (simp add: quiet_peak quiet_activated peak_append)
next
  case (drained g w1 w2 w3 tm ts rd)
  with metadata_quiet [OF drained(4)] message_quiet [OF drained(5)] show ?thesis
    by (simp add: quiet_peak quiet_activated peak_append wrapped_def Wrap_def split: option.splits)
qed










lemma deact_after_act_append:
  "deact_after_act g a \<Longrightarrow> deact_after_act g b \<Longrightarrow> deact_after_act g (a @ b)"
  by (auto simp: deact_after_act_def)

lemma deact_after_act_quiet: "\<forall>e\<in>set s. quiet e \<Longrightarrow> deact_after_act g s"
  by (auto simp: deact_after_act_def quiet_def)

lemma deact_after_act_replayConversation:
  assumes "replayConversation E H conv w = (r, w', t)"
  shows "deact_after_act g t"
  using assms
proof (cases rule: replayConversation_cases)
  case (bad_key err)
  then show ?thesis by (simp add: deact_after_act_def)
next
  case (home rs ts)
  with message_drain_kind [OF home(3)] show ?thesis by (auto simp: deact_after_act_def)
next
  case (not_activated k err)
  then show ?thesis by (simp add: deact_after_act_def)
next
  case (metadata_failed k w1 err tm)
  with metadata_drain_kind [OF metadata_failed(4)] show ?thesis by (auto simp: deact_after_act_def)
next
  case (message_failed k w1 w2 tm err ts)
  with metadata_drain_kind [OF message_failed(4)] message_drain_kind [OF message_failed(5)]
  show ?thesis by (auto simp: deact_after_act_def)
next
  case (drained k w1 w2 w3 tm ts rd)
  with metadata_drain_kind [OF drained(4)] message_drain_kind [OF drained(5)]
  show ?thesis by (auto simp: deact_after_act_def)
qed

lemma failing_drain_replayConversation:
  assumes "replayConversation E H conv w = (r, w', t)" and "t \<noteq> []"
    and "kind_of (last t) \<noteq> Setup" and "group_of (last t) = Some g" and "g \<noteq> H"
  shows "\<exists>post. t = b64DecodeBytes_call (PublicKey conv) (Inr g) # ActivateGroup_call g True None # post \<and>
           (\<forall>x\<in>set post. kind_of x \<noteq> Setup \<and> group_of x = Some g)"
  using assms(1)
proof (cases rule: replayConversation_cases)
  case (bad_key err)
  with assms(3) show ?thesis by simp
next
  case (home rs ts)
  show ?thesis
  proof (cases "ts = []")
    case True
    with home(2) assms(3) show ?thesis by simp
  next
    case False
    then have "last t \<in> set ts" using home(2) by simp
    with message_drain_kind [OF home(3)] assms(4,5) show ?thesis by auto
  qed
next
  case (not_activated k err)
  with assms(3) show ?thesis by simp
next
  case (metadata_failed k w1 err tm)
  show ?thesis
  proof (cases "tm = []")
    case True
    with metadata_failed(3) assms(3) show ?thesis by simp
  next
    case False
    then have "last t \<in> set tm" using metadata_failed(3) by simp
    with metadata_drain_kind [OF metadata_failed(4)] assms(4) have "k = g" by auto
    with metadata_failed(3) metadata_drain_kind [OF metadata_failed(4)] show ?thesis by auto
  qed
next
  case (message_failed k w1 w2 tm err ts)
  have all: "\<forall>x\<in>set (tm @ ts). kind_of x \<noteq> Setup \<and> group_of x = Some k"
    using metadata_drain_kind [OF message_failed(4)] message_drain_kind [OF message_failed(5)]
    by auto
  show ?thesis
  proof (cases "tm @ ts = []")
    case True
    with message_failed(3) assms(3) show ?thesis by simp
  next
    case False
    have "t = [b64DecodeBytes_call (PublicKey conv) (Inr k), ActivateGroup_call k True None]
        @ (tm @ ts)" using message_failed(3) by simp
    with False have "last t = last (tm @ ts)" by (metis last_appendR)
    with False have "last t \<in> set (tm @ ts)" by (metis last_in_set)
    with all assms(4) have "k = g" by auto
    with message_failed(3) all show ?thesis by auto
  qed
next
  case (drained k w1 w2 w3 tm ts rd)
  with assms(3) show ?thesis by simp
qed

lemma failing_drain_replayConversations:
  "replayConversations E H convs w = (r, w', t) \<Longrightarrow> t \<noteq> [] \<Longrightarrow> kind_of (last t) \<noteq> Setup \<Longrightarrow>
   group_of (last t) = Some g \<Longrightarrow> g \<noteq> H \<Longrightarrow>
     \<exists>pre post. t = pre @ ActivateGroup_call g True None # post \<and>
       (\<forall>x\<in>set post. kind_of x \<noteq> Setup \<and> group_of x = Some g) \<and>
       activated_from [] pre = [] \<and> deact_after_act g pre"
proof (induction convs arbitrary: w t)
  case Nil
  then show ?case by simp
next
  case (Cons conv convs)
  have one: "\<exists>pre post. s = pre @ ActivateGroup_call g True None # post \<and>
       (\<forall>x\<in>set post. kind_of x \<noteq> Setup \<and> group_of x = Some g) \<and>
       activated_from [] pre = [] \<and> deact_after_act g pre"
    if run: "replayConversation E H conv w = (r1, w1, s)" and s: "s \<noteq> []" "kind_of (last s) \<noteq> Setup"
       "group_of (last s) = Some g" for r1 w1 s
  proof -
    from failing_drain_replayConversation [OF run s Cons.prems(5)] obtain post where
      p: "s = [b64DecodeBytes_call (PublicKey conv) (Inr g)] @ ActivateGroup_call g True None # post"
      and q: "\<forall>x\<in>set post. kind_of x \<noteq> Setup \<and> group_of x = Some g" by auto
    have "activated_from [] [b64DecodeBytes_call (PublicKey conv) (Inr g)] = []" by simp
    moreover have "deact_after_act g [b64DecodeBytes_call (PublicKey conv) (Inr g)]"
      by (simp add: deact_after_act_def)
    ultimately show ?thesis using p q by blast
  qed
  from Cons.prems(1) show ?case
  proof (cases rule: replayConversations_cases)
    case (stopped err)
    from one [OF stopped(1) Cons.prems(2,3,4)] show ?thesis .
  next
    case (next_conversation w1 t1 t2)
    show ?thesis
    proof (cases "t2 = []")
      case True
      with next_conversation(3) have "t1 = t" by simp
      with one [OF next_conversation(1)] Cons.prems(2,3,4) show ?thesis by simp
    next
      case False
      then have "last t2 = last t" using next_conversation(3) by simp
      with Cons.IH [OF next_conversation(2) False] Cons.prems(3,4,5) obtain pre2 post where
        t2: "t2 = pre2 @ ActivateGroup_call g True None # post"
        and q: "\<forall>x\<in>set post. kind_of x \<noteq> Setup \<and> group_of x = Some g"
        and a: "activated_from [] pre2 = []" and d: "deact_after_act g pre2" by auto
      have "t = (t1 @ pre2) @ ActivateGroup_call g True None # post"
        using next_conversation(3) t2 by simp
      moreover have "activated_from [] (t1 @ pre2) = []"
        using peak_replayConversation [OF next_conversation(1)] a by simp
      moreover have "deact_after_act g (t1 @ pre2)"
        using deact_after_act_replayConversation [OF next_conversation(1)] d
        by (rule deact_after_act_append)
      ultimately show ?thesis using q by blast
    qed
  qed
qed

lemma failing_drain_replayLogsToDB:
  assumes "replayLogsToDB E w = (r, w', t)" and "InstanceGetConfiguration_call (Inr cfg) \<in> set t"
    and "kind_of (last t) \<noteq> Setup" and "group_of (last t) = Some g" and "g \<noteq> AccountGroupPK cfg"
  shows "\<exists>pre post. t = pre @ ActivateGroup_call g True None # post \<and>
       (\<forall>x\<in>set post. kind_of x \<noteq> Setup \<and> group_of x = Some g) \<and>
       activated_from [] pre = [] \<and> deact_after_act g pre"
  using assms(1)
proof (cases rule: replayLogsToDB_cases)
  case (no_configuration err)
  with assms(3) show ?thesis by simp
next
  case (no_account cfg' err)
  with assms(3) show ?thesis by simp
next
  case (metadata_failed cfg' w2 err tm)
  have "InstanceGetConfiguration_call (Inr cfg') \<in> set t" using metadata_failed(1) by simp
  with assms(1,2) have c: "cfg' = cfg" by (rule configuration_unique)
  show ?thesis
  proof (cases "tm = []")
    case True
    with metadata_failed(1) assms(3) show ?thesis by simp
  next
    case False
    then have "last t \<in> set tm" using metadata_failed(1) by simp
    with metadata_drain_kind [OF metadata_failed(2)] assms(4,5) c show ?thesis by auto
  qed
next
  case (not_listed cfg' w2 w3 tm err)
  with assms(3) show ?thesis by simp
next
  case (listed cfg' w2 w3 tm convs w4 tl)
  have "InstanceGetConfiguration_call (Inr cfg') \<in> set t" using listed(1) by simp
  with assms(1,2) have c: "cfg' = cfg" by (rule configuration_unique)
  let ?head = "[InstanceGetConfiguration_call (Inr cfg'),
            addAccount_call (b64EncodeBytes E (AccountGroupPK cfg')) [] None] @ tm @
            [getAllConversations_call (Inr convs)]"
  have q: "\<forall>e\<in>set ?head. quiet e"
    using metadata_quiet [OF listed(2)] by (auto simp: quiet_def)
  have t: "t = ?head @ tl" using listed(1) by simp
  show ?thesis
  proof (cases "tl = []")
    case True
    with listed(1) assms(3) show ?thesis by simp
  next
    case False
    then have "last tl = last t" using t by simp
    with failing_drain_replayConversations [OF listed(3) False] assms(3,4,5) c
    obtain pre2 post where
      t2: "tl = pre2 @ ActivateGroup_call g True None # post"
      and p: "\<forall>x\<in>set post. kind_of x \<noteq> Setup \<and> group_of x = Some g"
      and a: "activated_from [] pre2 = []" and d: "deact_after_act g pre2" by auto
    have "t = (?head @ pre2) @ ActivateGroup_call g True None # post" using t t2 by simp
    moreover have "activated_from [] (?head @ pre2) = []"
      using quiet_activated [OF q, of "[]"] a by (simp del: append.simps)
    moreover have "deact_after_act g (?head @ pre2)"
      using deact_after_act_quiet [OF q] d by (rule deact_after_act_append)
    ultimately show ?thesis using p by blast
  qed
qed

lemma md_tail_Nil: "md_tail g []"
  by (simp add: md_tail_def)

lemma md_tail_other: "s \<noteq> [] \<longrightarrow> (\<forall>x. last s \<noteq> metaList_Recv g (Inl x)) \<Longrightarrow> md_tail g s"
  unfolding md_tail_def by blast

lemma md_tail_single: "kind_of e = Setup \<Longrightarrow> md_tail g [e]"
  by (intro md_tail_other) auto

lemma md_tail_append:
  assumes a: "md_tail g a" and b: "md_tail g b"
  shows "md_tail g (a @ b)"
proof (cases "b = []")
  case True
  with a show ?thesis by simp
next
  case False
  show ?thesis unfolding md_tail_def
  proof (intro allI impI)
    fix x
    assume "a @ b \<noteq> [] \<and> last (a @ b) = metaList_Recv g (Inl x)"
    with False have "b \<noteq> [] \<and> last b = metaList_Recv g (Inl x)" by simp
    with b obtain pre ms post where
      s: "b = pre @ GroupMetadataList_call g True (Inr (ms, x)) # post"
      and r: "md_applied g post = ms \<and> md_opened g post = [] \<and>
           (\<forall>e\<in>set post. kind_of e = MetadataDrain \<and> group_of e = Some g)"
      unfolding md_tail_def by blast
    from s have "a @ b = (a @ pre) @ GroupMetadataList_call g True (Inr (ms, x)) # post" by simp
    with r show "\<exists>pre ms post. a @ b = pre @ GroupMetadataList_call g True (Inr (ms, x)) # post \<and>
           md_applied g post = ms \<and> md_opened g post = [] \<and>
           (\<forall>e\<in>set post. kind_of e = MetadataDrain \<and> group_of e = Some g)" by blast
  qed
qed

lemma md_tail_processMetadataList: "md_tail g (events (processMetadataList E k w))"
proof -
  obtain r w' t where run: "processMetadataList E k w = (r, w', t)"
    by (cases "processMetadataList E k w")
  from run have "md_tail g t"
  proof (cases rule: processMetadataList_cases)
    case (not_opened err)
    then show ?thesis by (intro md_tail_other) simp
  next
    case (opened ms fin w1 tl)
    show ?thesis unfolding md_tail_def
    proof (intro allI impI)
      fix x
      assume h: "t \<noteq> [] \<and> last t = metaList_Recv g (Inl x)"
      have grp: "\<forall>e\<in>set t. kind_of e = MetadataDrain \<and> group_of e = Some k"
        using metadata_drain_kind [OF run] .
      from h have ne: "t \<noteq> []" and l: "last t = metaList_Recv g (Inl x)" by simp_all
      from ne have "last t \<in> set t" by (rule last_in_set)
      with grp l have [simp]: "k = g" by auto
      from h opened(1) have "tl \<noteq> []" by auto
      with h opened(1) have "metaList_Recv g (Inl x) \<in> set tl" by (metis last_ConsR last_in_set)
      with metaList_loop_summary [OF opened(2), of g] have "x = fin" "md_applied g tl = ms"
        "md_opened g tl = []" by auto
      moreover have "\<forall>e\<in>set tl. kind_of e = MetadataDrain \<and> group_of e = Some g"
        using grp opened(1) by simp
      moreover have "t = [] @ GroupMetadataList_call g True (Inr (ms, fin)) # tl"
        using opened(1) by simp
      ultimately show "\<exists>pre ms post. t = pre @ GroupMetadataList_call g True (Inr (ms, x)) # post \<and>
           md_applied g post = ms \<and> md_opened g post = [] \<and>
           (\<forall>e\<in>set post. kind_of e = MetadataDrain \<and> group_of e = Some g)" by blast
    qed
  qed
  with run show ?thesis by simp
qed

lemma md_tail_processMessageList: "md_tail g (events (processMessageList E k w))"
proof (rule md_tail_other, intro impI allI notI)
  fix x
  assume "events (processMessageList E k w) \<noteq> []"
    and "last (events (processMessageList E k w)) = metaList_Recv g (Inl x)"
  then have "metaList_Recv g (Inl x) \<in> set (events (processMessageList E k w))"
    by (metis last_in_set)
  with all_processMessageList [of E k w] show False by auto
qed

lemma md_tail_replayLogsToDB:
  assumes "replayLogsToDB E w = (r, w', t)"
  shows "md_tail g t"
  using md_tail_append md_tail_Nil md_tail_single md_tail_processMetadataList
    md_tail_processMessageList assms
  by (rule local_replayLogsToDB [where P = "md_tail g"])

lemma msgList_loop_parsed:
  "msgList_loop E g s ms fin w = (r, w', t) \<Longrightarrow>
     \<forall>m\<in>set (msg_applied g t). \<exists>a. Unmarshal E (Message m) = Inr a"
proof (induction ms arbitrary: w t)
  case Nil
  from Nil.prems show ?case by (cases rule: msgList_loop_cases) auto
next
  case (Cons m ms)
  from Cons.prems show ?case
  proof (cases rule: msgList_loop_cases)
    case (applied m' rest a w1 tl)
    from applied(1) have [simp]: "m' = m" "rest = ms" by simp_all
    from Cons.IH [of w1 tl] applied(4)
    have "\<forall>m\<in>set (msg_applied g tl). \<exists>a. Unmarshal E (Message m) = Inr a" by simp
    with applied(2,3) show ?thesis by auto
  qed auto
qed

lemma msg_tail_Nil: "msg_tail E g []"
  by (simp add: msg_tail_def)

lemma msg_tail_other:
  "s \<noteq> [] \<longrightarrow> (\<forall>p err. last s \<noteq> Unmarshal_call g p (Inl err)) \<Longrightarrow> msg_tail E g s"
  unfolding msg_tail_def by blast

lemma msg_tail_single: "kind_of e = Setup \<Longrightarrow> msg_tail E g [e]"
  by (intro msg_tail_other) auto

lemma msg_tail_append:
  assumes a: "msg_tail E g a" and b: "msg_tail E g b"
  shows "msg_tail E g (a @ b)"
proof (cases "b = []")
  case True
  with a show ?thesis by simp
next
  case False
  show ?thesis unfolding msg_tail_def
  proof (intro allI impI)
    fix p err
    assume "a @ b \<noteq> [] \<and> last (a @ b) = Unmarshal_call g p (Inl err)"
    with False have "b \<noteq> [] \<and> last b = Unmarshal_call g p (Inl err)" by simp
    with b obtain pre ms fin post i where
      s: "b = pre @ GroupMessageList_call g True (Inr (ms, fin)) # post"
      and r: "i < length ms \<and> Message (ms ! i) = p \<and> Unmarshal E p = Inl err \<and>
           (\<forall>m\<in>set (take i ms). \<exists>a. Unmarshal E (Message m) = Inr a) \<and>
           msg_applied g post = take i ms \<and> msg_received g post = take (Suc i) ms \<and>
           msg_opened g post = [] \<and>
           (\<forall>e\<in>set post. kind_of e = MessageDrain \<and> group_of e = Some g)"
      unfolding msg_tail_def by blast
    from s have "a @ b = (a @ pre) @ GroupMessageList_call g True (Inr (ms, fin)) # post" by simp
    with r show "\<exists>pre ms fin post i. a @ b = pre @ GroupMessageList_call g True (Inr (ms, fin)) # post \<and>
           i < length ms \<and> Message (ms ! i) = p \<and> Unmarshal E p = Inl err \<and>
           (\<forall>m\<in>set (take i ms). \<exists>a. Unmarshal E (Message m) = Inr a) \<and>
           msg_applied g post = take i ms \<and> msg_received g post = take (Suc i) ms \<and>
           msg_opened g post = [] \<and>
           (\<forall>e\<in>set post. kind_of e = MessageDrain \<and> group_of e = Some g)" by blast
  qed
qed

lemma msg_tail_processMessageList: "msg_tail E g (events (processMessageList E k w))"
proof -
  obtain r w' t where run: "processMessageList E k w = (r, w', t)"
    by (cases "processMessageList E k w")
  from run have "msg_tail E g t"
  proof (cases rule: processMessageList_cases)
    case (not_opened err)
    then show ?thesis by (intro msg_tail_other) simp
  next
    case (opened ms fin w1 tl)
    show ?thesis unfolding msg_tail_def
    proof (intro allI impI)
      fix p err
      assume h: "t \<noteq> [] \<and> last t = Unmarshal_call g p (Inl err)"
      have grp: "\<forall>e\<in>set t. kind_of e = MessageDrain \<and> group_of e = Some k"
        using message_drain_kind [OF run] .
      from h have ne: "t \<noteq> []" and l: "last t = Unmarshal_call g p (Inl err)" by simp_all
      from ne have "last t \<in> set t" by (rule last_in_set)
      with grp l have [simp]: "k = g" by auto
      from l opened(1) have "tl \<noteq> []" by auto
      with l opened(1) have "Unmarshal_call g p (Inl err) \<in> set tl" by (metis last_ConsR last_in_set)
      with msgList_loop_summary [OF opened(2), of g] obtain i where
        i: "i < length ms" "Message (ms ! i) = p" "Unmarshal E p = Inl err"
          "msg_applied g tl = take i ms" "msg_received g tl = take (Suc i) ms"
        and o: "msg_opened g tl = []" by auto
      have "\<forall>m\<in>set (take i ms). \<exists>a. Unmarshal E (Message m) = Inr a"
        using msgList_loop_parsed [OF opened(2)] i(4) by simp
      moreover have "\<forall>e\<in>set tl. kind_of e = MessageDrain \<and> group_of e = Some g"
        using grp opened(1) by simp
      moreover have "t = [] @ GroupMessageList_call g True (Inr (ms, fin)) # tl"
        using opened(1) by simp
      ultimately show "\<exists>pre ms fin post i. t = pre @ GroupMessageList_call g True (Inr (ms, fin)) # post \<and>
           i < length ms \<and> Message (ms ! i) = p \<and> Unmarshal E p = Inl err \<and>
           (\<forall>m\<in>set (take i ms). \<exists>a. Unmarshal E (Message m) = Inr a) \<and>
           msg_applied g post = take i ms \<and> msg_received g post = take (Suc i) ms \<and>
           msg_opened g post = [] \<and>
           (\<forall>e\<in>set post. kind_of e = MessageDrain \<and> group_of e = Some g)"
        using i o by blast
    qed
  qed
  with run show ?thesis by simp
qed

lemma msg_tail_processMetadataList: "msg_tail E g (events (processMetadataList E k w))"
proof (rule msg_tail_other, intro impI allI notI)
  fix p err
  assume "events (processMetadataList E k w) \<noteq> []"
    and "last (events (processMetadataList E k w)) = Unmarshal_call g p (Inl err)"
  then have "Unmarshal_call g p (Inl err) \<in> set (events (processMetadataList E k w))"
    by (metis last_in_set)
  with all_processMetadataList [of E k w] show False by auto
qed

lemma msg_tail_replayLogsToDB:
  assumes "replayLogsToDB E w = (r, w', t)"
  shows "msg_tail E g t"
  using msg_tail_append msg_tail_Nil msg_tail_single msg_tail_processMetadataList
    msg_tail_processMessageList assms
  by (rule local_replayLogsToDB [where P = "msg_tail E g"])

lemma msg_after_open_none: "no_msg g s \<Longrightarrow> msg_after_open g s"
  unfolding msg_after_open_def no_msg_def by auto

lemma msg_after_open_Nil: "msg_after_open g []"
  by (simp add: msg_after_open_def)

lemma msg_after_open_single: "kind_of e = Setup \<Longrightarrow> msg_after_open g [e]"
  by (intro msg_after_open_none) (simp add: no_msg_def)

lemma msg_after_open_append:
  assumes a: "msg_after_open g a" and b: "msg_after_open g b"
  shows "msg_after_open g (a @ b)"
  unfolding msg_after_open_def
proof (intro allI impI)
  fix pre e post
  assume h: "a @ b = pre @ e # post \<and> kind_of e = MessageDrain \<and> group_of e = Some g \<and>
        msg_opened g pre = []"
  then have eq: "a @ b = pre @ e # post" and k: "kind_of e = MessageDrain" "group_of e = Some g"
    and o: "msg_opened g pre = []" by simp_all
  from eq show "msg_open_of g e \<noteq> []"
  proof (cases rule: split_append)
    case (left pa)
    with a k o show ?thesis unfolding msg_after_open_def by blast
  next
    case (right pb)
    with o have "msg_opened g pb = []" by simp
    with b right(1) k show ?thesis unfolding msg_after_open_def by blast
  qed
qed

lemma msg_after_open_processMetadataList: "msg_after_open g (events (processMetadataList E k w))"
  using all_processMetadataList [of E k w] by (intro msg_after_open_none) (auto simp: no_msg_def)

lemma msg_after_open_processMessageList: "msg_after_open g (events (processMessageList E k w))"
proof -
  obtain r w' t where run: "processMessageList E k w = (r, w', t)"
    by (cases "processMessageList E k w")
  have grp: "\<forall>e\<in>set t. kind_of e = MessageDrain \<and> group_of e = Some k"
    using message_drain_kind [OF run] .
  have "msg_after_open g t"
  proof (cases "g = k")
    case False
    with grp show ?thesis by (intro msg_after_open_none) (auto simp: no_msg_def)
  next
    case True
    have "\<exists>x tl. t = GroupMessageList_call g True x # tl"
      using run True by (cases rule: processMessageList_cases) simp_all
    then obtain x tl where t: "t = GroupMessageList_call g True x # tl" by blast
    show ?thesis unfolding msg_after_open_def
    proof (intro allI impI)
      fix pre e post
      assume h: "t = pre @ e # post \<and> kind_of e = MessageDrain \<and> group_of e = Some g \<and>
        msg_opened g pre = []"
      show "msg_open_of g e \<noteq> []"
      proof (cases pre)
        case Nil
        with h t have "e = GroupMessageList_call g True x" by simp
        then show ?thesis by simp
      next
        case (Cons p ps)
        with h t have "p = GroupMessageList_call g True x" by simp
        with Cons h show ?thesis by simp
      qed
    qed
  qed
  with run show ?thesis by simp
qed

lemma msg_after_open_replayLogsToDB:
  assumes "replayLogsToDB E w = (r, w', t)"
  shows "msg_after_open g t"
  using msg_after_open_append msg_after_open_Nil msg_after_open_single
    msg_after_open_processMetadataList msg_after_open_processMessageList assms
  by (rule local_replayLogsToDB [where P = "msg_after_open g"])

lemma no_msg_before_open:
  assumes "replayLogsToDB E w = (r, w', t)" and "t = pre @ rest" and "msg_opened g pre = []"
  shows "no_msg g pre"
  unfolding no_msg_def
proof (intro ballI notI)
  fix e assume e: "e \<in> set pre" and k: "kind_of e = MessageDrain \<and> group_of e = Some g"
  from e obtain p1 p2 where p: "pre = p1 @ e # p2" by (auto simp: in_set_conv_decomp)
  with assms(3) have o: "msg_opened g p1 = []" and n: "msg_open_of g e = []" by simp_all
  have "t = p1 @ e # (p2 @ rest)" using assms(2) p by simp
  with msg_after_open_replayLogsToDB [OF assms(1), of g] k o have "msg_open_of g e \<noteq> []"
    unfolding msg_after_open_def by blast
  with n show False by simp
qed

lemma no_message_drain_before_metadata:
  assumes "replayLogsToDB E w = (r, w', t)" and "t = pre @ rest" and "md_opened g pre = []"
  shows "no_msg g pre"
  unfolding no_msg_def
proof (intro ballI notI)
  fix e assume e: "e \<in> set pre" and k: "kind_of e = MessageDrain \<and> group_of e = Some g"
  from e obtain p1 p2 where p: "pre = p1 @ e # p2" by (auto simp: in_set_conv_decomp)
  have t: "t = p1 @ e # (p2 @ rest)" using assms(2) p by simp
  from k have "kind_of e = MessageDrain" "group_of e = Some g" by simp_all
  with assms(1) t have "md_opened g p1 \<noteq> []" by (rule message_after_open)
  with assms(3) p show False by simp
qed







lemma account_calls_simps [simp]:
  "account_calls [] = []"
  "account_calls (e # t) = account_call_of e @ account_calls t"
  "account_calls (a @ b) = account_calls a @ account_calls b"
  by (simp_all add: account_calls_def)

lemma later_call_no_account: "later_call E H e \<Longrightarrow> account_call_of e = []"
  by (cases e) (auto simp: later_call_def loop_call_def)

lemma account_calls_none: "\<forall>e\<in>set s. account_call_of e = [] \<Longrightarrow> account_calls s = []"
  by (induction s) simp_all

section \<open>Runs of the concrete environments\<close>

lemmas run_simps =
  replayLogsToDB_def processMetadataList_def processMessageList_def replayConversation_def
  call_def wrapWith_def Wrap_def scenario_def metaLog_def msgLog_def b64enc_def b64dec_def


lemma run_scenario:
  "replayLogsToDB scenario False =
     (None, False,
     [InstanceGetConfiguration_call (Inr \<lparr>AccountGroupPK = [1]\<rparr>),
     addAccount_call ''AQ'' [] None,
     GroupMetadataList_call [1] True (Inr ([[10], [11]], EOF)),
     metaList_ctxErr [1] False, metaList_Recv [1] (Inr [10]),
     handleMetadataEvent_call [1] [10] None, metaList_ctxErr [1] False,
     metaList_Recv [1] (Inr [11]), handleMetadataEvent_call [1] [11] None,
     metaList_ctxErr [1] False, metaList_Recv [1] (Inl EOF),
     getAllConversations_call
     (Inr [\<lparr>PublicKey = ''AQ''\<rparr>, \<lparr>PublicKey = ''Ag''\<rparr>,
     \<lparr>PublicKey = ''Aw''\<rparr>]),
     b64DecodeBytes_call ''AQ'' (Inr [1]),
     GroupMessageList_call [1] True (Inr ([], EOF)), msgList_ctxErr [1] False,
     msgList_Recv [1] (Inl EOF), b64DecodeBytes_call ''Ag'' (Inr [2]),
     ActivateGroup_call [2] True None,
     GroupMetadataList_call [2] True (Inr ([[20]], EOF)),
     metaList_ctxErr [2] False, metaList_Recv [2] (Inr [20]),
     handleMetadataEvent_call [2] [20] None, metaList_ctxErr [2] False,
     metaList_Recv [2] (Inl EOF),
     GroupMessageList_call [2] True
     (Inr ([\<lparr>Message = [8, 1]\<rparr>, \<lparr>Message = [8, 2]\<rparr>, \<lparr>Message = [8, 3]\<rparr>],
     EOF)),
     msgList_ctxErr [2] False, msgList_Recv [2] (Inr \<lparr>Message = [8, 1]\<rparr>),
     Unmarshal_call [2] [8, 1] (Inr (AppMessage [8, 1])),
     handleAppMessage_call [2] ''Ag'' \<lparr>Message = [8, 1]\<rparr> (AppMessage [8, 1])
     None,
     msgList_ctxErr [2] False, msgList_Recv [2] (Inr \<lparr>Message = [8, 2]\<rparr>),
     Unmarshal_call [2] [8, 2] (Inr (AppMessage [8, 2])),
     handleAppMessage_call [2] ''Ag'' \<lparr>Message = [8, 2]\<rparr> (AppMessage [8, 2])
     None,
     msgList_ctxErr [2] False, msgList_Recv [2] (Inr \<lparr>Message = [8, 3]\<rparr>),
     Unmarshal_call [2] [8, 3] (Inr (AppMessage [8, 3])),
     handleAppMessage_call [2] ''Ag'' \<lparr>Message = [8, 3]\<rparr> (AppMessage [8, 3])
     None,
     msgList_ctxErr [2] False, msgList_Recv [2] (Inl EOF),
     DeactivateGroup_call [2] None, b64DecodeBytes_call ''Aw'' (Inr [3]),
     ActivateGroup_call [3] True None,
     GroupMetadataList_call [3] True (Inr ([], EOF)),
     metaList_ctxErr [3] False, metaList_Recv [3] (Inl EOF),
     GroupMessageList_call [3] True (Inr ([], EOF)), msgList_ctxErr [3] False,
     msgList_Recv [3] (Inl EOF), DeactivateGroup_call [3] None])"
  by (simp add: run_simps)

lemma run_cancelled_in_messages:
  "replayLogsToDB cancelled_in_messages False =
     (Some
     (WithCode ErrReplayProcessGroupMessage
     (Some (WithCode ErrEventListMessage None))),
     True,
     [InstanceGetConfiguration_call (Inr \<lparr>AccountGroupPK = [1]\<rparr>),
     addAccount_call ''AQ'' [] None,
     GroupMetadataList_call [1] True (Inr ([[10], [11]], EOF)),
     metaList_ctxErr [1] False, metaList_Recv [1] (Inr [10]),
     handleMetadataEvent_call [1] [10] None, metaList_ctxErr [1] False,
     metaList_Recv [1] (Inr [11]), handleMetadataEvent_call [1] [11] None,
     metaList_ctxErr [1] False, metaList_Recv [1] (Inl EOF),
     getAllConversations_call
     (Inr [\<lparr>PublicKey = ''AQ''\<rparr>, \<lparr>PublicKey = ''Ag''\<rparr>,
     \<lparr>PublicKey = ''Aw''\<rparr>]),
     b64DecodeBytes_call ''AQ'' (Inr [1]),
     GroupMessageList_call [1] True (Inr ([], EOF)), msgList_ctxErr [1] False,
     msgList_Recv [1] (Inl EOF), b64DecodeBytes_call ''Ag'' (Inr [2]),
     ActivateGroup_call [2] True None,
     GroupMetadataList_call [2] True (Inr ([[20]], EOF)),
     metaList_ctxErr [2] False, metaList_Recv [2] (Inr [20]),
     handleMetadataEvent_call [2] [20] None, metaList_ctxErr [2] False,
     metaList_Recv [2] (Inl EOF),
     GroupMessageList_call [2] True
     (Inr ([\<lparr>Message = [8, 1]\<rparr>, \<lparr>Message = [8, 2]\<rparr>, \<lparr>Message = [8, 3]\<rparr>],
     EOF)),
     msgList_ctxErr [2] False, msgList_Recv [2] (Inr \<lparr>Message = [8, 1]\<rparr>),
     Unmarshal_call [2] [8, 1] (Inr (AppMessage [8, 1])),
     handleAppMessage_call [2] ''Ag'' \<lparr>Message = [8, 1]\<rparr> (AppMessage [8, 1])
     None,
     msgList_ctxErr [2] True])"
  by (simp add: run_simps cancelled_in_messages_def)

lemma run_rejecting_metadata:
  "replayLogsToDB rejecting_metadata False =
     (Some
     (WithCode ErrReplayProcessGroupMetadata (Some (Foreign ''rejected''))),
     False,
     [InstanceGetConfiguration_call (Inr \<lparr>AccountGroupPK = [1]\<rparr>),
     addAccount_call ''AQ'' [] None,
     GroupMetadataList_call [1] True (Inr ([[10], [11]], EOF)),
     metaList_ctxErr [1] False, metaList_Recv [1] (Inr [10]),
     handleMetadataEvent_call [1] [10] (Some (Foreign ''rejected''))])"
  by (simp add: run_simps rejecting_metadata_def)

lemma run_broken_metadata_stream:
  "replayLogsToDB broken_metadata_stream False =
     (Some
     (WithCode ErrReplayProcessGroupMetadata
     (Some
     (WithCode ErrEventListMetadata
     (Some (Foreign ''connection reset''))))),
     False,
     [InstanceGetConfiguration_call (Inr \<lparr>AccountGroupPK = [1]\<rparr>),
     addAccount_call ''AQ'' [] None,
     GroupMetadataList_call [1] True (Inr ([[10], [11]], EOF)),
     metaList_ctxErr [1] False, metaList_Recv [1] (Inr [10]),
     handleMetadataEvent_call [1] [10] None, metaList_ctxErr [1] False,
     metaList_Recv [1] (Inr [11]), handleMetadataEvent_call [1] [11] None,
     metaList_ctxErr [1] False, metaList_Recv [1] (Inl EOF),
     getAllConversations_call
     (Inr [\<lparr>PublicKey = ''AQ''\<rparr>, \<lparr>PublicKey = ''Ag''\<rparr>,
     \<lparr>PublicKey = ''Aw''\<rparr>]),
     b64DecodeBytes_call ''AQ'' (Inr [1]),
     GroupMessageList_call [1] True (Inr ([], EOF)), msgList_ctxErr [1] False,
     msgList_Recv [1] (Inl EOF), b64DecodeBytes_call ''Ag'' (Inr [2]),
     ActivateGroup_call [2] True None,
     GroupMetadataList_call [2] True
     (Inr ([[20]], Foreign ''connection reset'')),
     metaList_ctxErr [2] False, metaList_Recv [2] (Inr [20]),
     handleMetadataEvent_call [2] [20] None, metaList_ctxErr [2] False,
     metaList_Recv [2] (Inl (Foreign ''connection reset''))])"
  by (simp add: run_simps broken_metadata_stream_def)

lemma run_malformed_message:
  "replayLogsToDB malformed_message False =
     (Some
     (WithCode ErrReplayProcessGroupMessage
     (Some
     (WithCode ErrDeserialization (Some (Foreign ''cannot parse''))))),
     False,
     [InstanceGetConfiguration_call (Inr \<lparr>AccountGroupPK = [1]\<rparr>),
     addAccount_call ''AQ'' [] None,
     GroupMetadataList_call [1] True (Inr ([[10], [11]], EOF)),
     metaList_ctxErr [1] False, metaList_Recv [1] (Inr [10]),
     handleMetadataEvent_call [1] [10] None, metaList_ctxErr [1] False,
     metaList_Recv [1] (Inr [11]), handleMetadataEvent_call [1] [11] None,
     metaList_ctxErr [1] False, metaList_Recv [1] (Inl EOF),
     getAllConversations_call
     (Inr [\<lparr>PublicKey = ''AQ''\<rparr>, \<lparr>PublicKey = ''Ag''\<rparr>,
     \<lparr>PublicKey = ''Aw''\<rparr>]),
     b64DecodeBytes_call ''AQ'' (Inr [1]),
     GroupMessageList_call [1] True (Inr ([], EOF)), msgList_ctxErr [1] False,
     msgList_Recv [1] (Inl EOF), b64DecodeBytes_call ''Ag'' (Inr [2]),
     ActivateGroup_call [2] True None,
     GroupMetadataList_call [2] True (Inr ([[20]], EOF)),
     metaList_ctxErr [2] False, metaList_Recv [2] (Inr [20]),
     handleMetadataEvent_call [2] [20] None, metaList_ctxErr [2] False,
     metaList_Recv [2] (Inl EOF),
     GroupMessageList_call [2] True
     (Inr ([\<lparr>Message = [8, 1]\<rparr>, \<lparr>Message = [255]\<rparr>, \<lparr>Message = [8, 3]\<rparr>],
     EOF)),
     msgList_ctxErr [2] False, msgList_Recv [2] (Inr \<lparr>Message = [8, 1]\<rparr>),
     Unmarshal_call [2] [8, 1] (Inr (AppMessage [8, 1])),
     handleAppMessage_call [2] ''Ag'' \<lparr>Message = [8, 1]\<rparr> (AppMessage [8, 1])
     None,
     msgList_ctxErr [2] False, msgList_Recv [2] (Inr \<lparr>Message = [255]\<rparr>),
     Unmarshal_call [2] [255] (Inl (Foreign ''cannot parse''))])"
  by (simp add: run_simps malformed_message_def)

lemma run_bad_key:
  "replayLogsToDB bad_key False =
     (Some
     (WithCode ErrDeserialization (Some (Foreign ''illegal base64 data''))),
     False,
     [InstanceGetConfiguration_call (Inr \<lparr>AccountGroupPK = [1]\<rparr>),
     addAccount_call ''AQ'' [] None,
     GroupMetadataList_call [1] True (Inr ([[10], [11]], EOF)),
     metaList_ctxErr [1] False, metaList_Recv [1] (Inr [10]),
     handleMetadataEvent_call [1] [10] None, metaList_ctxErr [1] False,
     metaList_Recv [1] (Inr [11]), handleMetadataEvent_call [1] [11] None,
     metaList_ctxErr [1] False, metaList_Recv [1] (Inl EOF),
     getAllConversations_call
     (Inr [\<lparr>PublicKey = ''AQ''\<rparr>, \<lparr>PublicKey = ''Ag''\<rparr>, \<lparr>PublicKey = ''!!''\<rparr>,
     \<lparr>PublicKey = ''Aw''\<rparr>]),
     b64DecodeBytes_call ''AQ'' (Inr [1]),
     GroupMessageList_call [1] True (Inr ([], EOF)), msgList_ctxErr [1] False,
     msgList_Recv [1] (Inl EOF), b64DecodeBytes_call ''Ag'' (Inr [2]),
     ActivateGroup_call [2] True None,
     GroupMetadataList_call [2] True (Inr ([[20]], EOF)),
     metaList_ctxErr [2] False, metaList_Recv [2] (Inr [20]),
     handleMetadataEvent_call [2] [20] None, metaList_ctxErr [2] False,
     metaList_Recv [2] (Inl EOF),
     GroupMessageList_call [2] True
     (Inr ([\<lparr>Message = [8, 1]\<rparr>, \<lparr>Message = [8, 2]\<rparr>, \<lparr>Message = [8, 3]\<rparr>],
     EOF)),
     msgList_ctxErr [2] False, msgList_Recv [2] (Inr \<lparr>Message = [8, 1]\<rparr>),
     Unmarshal_call [2] [8, 1] (Inr (AppMessage [8, 1])),
     handleAppMessage_call [2] ''Ag'' \<lparr>Message = [8, 1]\<rparr> (AppMessage [8, 1])
     None,
     msgList_ctxErr [2] False, msgList_Recv [2] (Inr \<lparr>Message = [8, 2]\<rparr>),
     Unmarshal_call [2] [8, 2] (Inr (AppMessage [8, 2])),
     handleAppMessage_call [2] ''Ag'' \<lparr>Message = [8, 2]\<rparr> (AppMessage [8, 2])
     None,
     msgList_ctxErr [2] False, msgList_Recv [2] (Inr \<lparr>Message = [8, 3]\<rparr>),
     Unmarshal_call [2] [8, 3] (Inr (AppMessage [8, 3])),
     handleAppMessage_call [2] ''Ag'' \<lparr>Message = [8, 3]\<rparr> (AppMessage [8, 3])
     None,
     msgList_ctxErr [2] False, msgList_Recv [2] (Inl EOF),
     DeactivateGroup_call [2] None,
     b64DecodeBytes_call ''!!'' (Inl (Foreign ''illegal base64 data''))])"
  by (simp add: run_simps bad_key_def)

lemma run_home_not_listed:
  "replayLogsToDB home_not_listed False =
     (None, False,
     [InstanceGetConfiguration_call (Inr \<lparr>AccountGroupPK = [1]\<rparr>),
     addAccount_call ''AQ'' [] None,
     GroupMetadataList_call [1] True (Inr ([[10], [11]], EOF)),
     metaList_ctxErr [1] False, metaList_Recv [1] (Inr [10]),
     handleMetadataEvent_call [1] [10] None, metaList_ctxErr [1] False,
     metaList_Recv [1] (Inr [11]), handleMetadataEvent_call [1] [11] None,
     metaList_ctxErr [1] False, metaList_Recv [1] (Inl EOF),
     getAllConversations_call
     (Inr [\<lparr>PublicKey = ''Ag''\<rparr>, \<lparr>PublicKey = ''Aw''\<rparr>]),
     b64DecodeBytes_call ''Ag'' (Inr [2]), ActivateGroup_call [2] True None,
     GroupMetadataList_call [2] True (Inr ([[20]], EOF)),
     metaList_ctxErr [2] False, metaList_Recv [2] (Inr [20]),
     handleMetadataEvent_call [2] [20] None, metaList_ctxErr [2] False,
     metaList_Recv [2] (Inl EOF),
     GroupMessageList_call [2] True
     (Inr ([\<lparr>Message = [8, 1]\<rparr>, \<lparr>Message = [8, 2]\<rparr>, \<lparr>Message = [8, 3]\<rparr>],
     EOF)),
     msgList_ctxErr [2] False, msgList_Recv [2] (Inr \<lparr>Message = [8, 1]\<rparr>),
     Unmarshal_call [2] [8, 1] (Inr (AppMessage [8, 1])),
     handleAppMessage_call [2] ''Ag'' \<lparr>Message = [8, 1]\<rparr> (AppMessage [8, 1])
     None,
     msgList_ctxErr [2] False, msgList_Recv [2] (Inr \<lparr>Message = [8, 2]\<rparr>),
     Unmarshal_call [2] [8, 2] (Inr (AppMessage [8, 2])),
     handleAppMessage_call [2] ''Ag'' \<lparr>Message = [8, 2]\<rparr> (AppMessage [8, 2])
     None,
     msgList_ctxErr [2] False, msgList_Recv [2] (Inr \<lparr>Message = [8, 3]\<rparr>),
     Unmarshal_call [2] [8, 3] (Inr (AppMessage [8, 3])),
     handleAppMessage_call [2] ''Ag'' \<lparr>Message = [8, 3]\<rparr> (AppMessage [8, 3])
     None,
     msgList_ctxErr [2] False, msgList_Recv [2] (Inl EOF),
     DeactivateGroup_call [2] None, b64DecodeBytes_call ''Aw'' (Inr [3]),
     ActivateGroup_call [3] True None,
     GroupMetadataList_call [3] True (Inr ([], EOF)),
     metaList_ctxErr [3] False, metaList_Recv [3] (Inl EOF),
     GroupMessageList_call [3] True (Inr ([], EOF)), msgList_ctxErr [3] False,
     msgList_Recv [3] (Inl EOF), DeactivateGroup_call [3] None])"
  by (simp add: run_simps home_not_listed_def)

lemma run_store_full:
  "replayLogsToDB store_full False =
     (Some (WithCode ErrDBWrite (Some (Foreign ''disk full''))), False,
     [InstanceGetConfiguration_call (Inr \<lparr>AccountGroupPK = [1]\<rparr>),
     addAccount_call ''AQ'' [] (Some (Foreign ''disk full''))])"
  by (simp add: run_simps store_full_def)

lemma run_activation_refused:
  "replayLogsToDB activation_refused False =
     (Some (WithCode ErrGroupActivate (Some (Foreign ''refused''))), False,
     [InstanceGetConfiguration_call (Inr \<lparr>AccountGroupPK = [1]\<rparr>),
     addAccount_call ''AQ'' [] None,
     GroupMetadataList_call [1] True (Inr ([[10], [11]], EOF)),
     metaList_ctxErr [1] False, metaList_Recv [1] (Inr [10]),
     handleMetadataEvent_call [1] [10] None, metaList_ctxErr [1] False,
     metaList_Recv [1] (Inr [11]), handleMetadataEvent_call [1] [11] None,
     metaList_ctxErr [1] False, metaList_Recv [1] (Inl EOF),
     getAllConversations_call
     (Inr [\<lparr>PublicKey = ''Ag''\<rparr>, \<lparr>PublicKey = ''Aw''\<rparr>]),
     b64DecodeBytes_call ''Ag'' (Inr [2]),
     ActivateGroup_call [2] True (Some (Foreign ''refused''))])"
  by (simp add: run_simps activation_refused_def home_not_listed_def)

lemma b64DecodeBytes_home_not_listed: "b64DecodeBytes home_not_listed = b64dec"
  by (simp add: home_not_listed_def scenario_def)

lemma b64DecodeBytes_activation_refused: "b64DecodeBytes activation_refused = b64dec"
  by (simp add: activation_refused_def home_not_listed_def scenario_def)

section \<open>The claims\<close>

text \<open>
  C6.  The spec's taxonomy has a configuration-fetch error for a failed configuration
  lookup and no generic kind.  The code wraps the failure of
  \<^verbatim>\<open>InstanceGetConfiguration\<close> in the placeholder code \<open>TODO\<close>: with a protocol client
  whose lookup fails with the error \<open>unavailable\<close>, the replay makes that one call and
  returns \<open>TODO\<close> wrapped around the client's error.
\<close>

theorem C6_configuration_failure_is_TODO:
  "replayLogsToDB no_configuration False =
     (Some (WithCode TODO (Some (Foreign ''unavailable''))), False,
      [InstanceGetConfiguration_call (Inl (Foreign ''unavailable''))])"
  by (simp add: replayLogsToDB_def no_configuration_def scenario_def Wrap_def)



text \<open>
  C1, as amended.  Take a run of the replay that opens the metadata stream of a group \<open>g\<close>
  once (as it does when the store lists each group once) and let the stream hold the
  items \<open>ms\<close>.  Then the items handed to \<^verbatim>\<open>handleMetadataEvent\<close> for \<open>g\<close> are an initial
  part of \<open>ms\<close>, in the order of the stream; they are all of \<open>ms\<close>, so the handler is
  called exactly \<open>length ms\<close> times, when the replay returns no error or the stream was
  read to its end; and no metadata item of \<open>g\<close> is applied after a message of \<open>g\<close> was
  handed to \<^verbatim>\<open>handleAppMessage\<close>.
\<close>

theorem C1_metadata_applied_in_order:
  assumes "replayLogsToDB E w = (r, w', t)" and "md_opened g t = [Inr (ms, fin)]"
  shows "(\<exists>n. md_applied g t = take n ms) \<and>
         (r = None \<or> metaList_Recv g (Inl fin) \<in> set t \<longrightarrow> md_applied g t = ms) \<and>
         (\<forall>pre e post. t = pre @ e # post \<and> msg_apply_of g e \<noteq> [] \<longrightarrow> md_applied g post = [])"
proof -
  have ok: "md_ok g t" using assms(1) by (rule md_ok_replayLogsToDB)
  note facts = md_ok_opened [OF ok assms(2)]
  have a: "\<exists>n. md_applied g t = take n ms" by (rule facts(1))
  have b: "r = None \<or> metaList_Recv g (Inl fin) \<in> set t \<longrightarrow> md_applied g t = ms"
  proof
    assume "r = None \<or> metaList_Recv g (Inl fin) \<in> set t"
    then have "metaList_Recv g (Inl fin) \<in> set t"
      using facts(3) succeeded_no_failure [of E w w' t] assms(1) by auto
    then show "md_applied g t = ms" using facts(2) by blast
  qed
  have c: "\<forall>pre e post. t = pre @ e # post \<and> msg_apply_of g e \<noteq> [] \<longrightarrow> md_applied g post = []"
  proof (intro allI impI)
    fix pre e post
    assume h: "t = pre @ e # post \<and> msg_apply_of g e \<noteq> []"
    then have t: "t = pre @ e # post" and m: "msg_apply_of g e \<noteq> []" by simp_all
    from m have k: "kind_of e = MessageDrain" "group_of e = Some g"
      by (cases e; auto split: if_splits)+
    have "md_opened g pre \<noteq> []" using assms(1) t k by (rule message_after_open)
    with assms(2) t have o: "md_opened g post = []"
      by (auto simp: append_eq_Cons_conv Cons_eq_append_conv)
    have "md_after_msg g t" using assms(1) by (rule md_after_msg_replayLogsToDB)
    with t k o have "no_md g post" unfolding md_after_msg_def by blast
    then show "md_applied g post = []" unfolding no_md_def by (rule md_applied_none)
  qed
  from a b c show ?thesis by blast
qed

text \<open>
  The scenario of the spec is such a run for the group \<open>[2]\<close>: its one metadata item is
  applied once.
\<close>

theorem C1_witness:
  "fst (replayLogsToDB scenario False) = None \<and>
   md_opened [2] (events (replayLogsToDB scenario False)) = [Inr ([[20]], EOF)] \<and>
   md_applied [2] (events (replayLogsToDB scenario False)) = [[20]]"
  using C1_metadata_applied_in_order
    [where g = "[2]" and ms = "[[20]]" and fin = EOF, OF run_scenario]
  by (simp add: run_scenario)

text \<open>
  C1 as stated asks for exactly \<open>M\<close> calls on every invocation.  With a handler that
  rejects the first of the two metadata items of the account group, the stream opened
  for the account group holds two items and the handler is called once.
\<close>

theorem C1_counterexample:
  "md_opened [1] (events (replayLogsToDB rejecting_metadata False)) = [Inr ([[10], [11]], EOF)] \<and>
   md_applied [1] (events (replayLogsToDB rejecting_metadata False)) = [[10]] \<and>
   length (md_applied [1] (events (replayLogsToDB rejecting_metadata False))) \<noteq> length [[10], [11::8 word]]"
  by (simp add: run_rejecting_metadata)

text \<open>
  C9.  When the decoding of a conversation's public key fails in a run, the replay
  returns the deserialization error around the decoder's error and the failed decoding
  is the last call of the run: no activation, no drain and no handler call follows, for
  that conversation or a later one.  The conversations are decoded in the order of the
  store's list, each once, up to the point where the run ends, so nothing was done for
  a conversation after the failing one before either; and a run whose list holds a key
  that does not decode never returns success.
\<close>

theorem C9_bad_key_aborts_the_replay:
  assumes "replayLogsToDB E w = (r, w', t)"
  shows "(\<forall>s err. b64DecodeBytes_call s (Inl err) \<in> set t \<longrightarrow>
            r = Some (WithCode ErrDeserialization (Some err)) \<and>
            (\<forall>pre post. t = pre @ b64DecodeBytes_call s (Inl err) # post \<longrightarrow> post = [])) \<and>
         (\<forall>convs. getAllConversations_call (Inr convs) \<in> set t \<longrightarrow>
            (\<exists>n. decoded t = map PublicKey (take n convs)) \<and>
            ((\<exists>c\<in>set convs. \<exists>err. b64DecodeBytes E (PublicKey c) = Inl err) \<longrightarrow> r \<noteq> None))"
proof -
  have a: "r = Some (WithCode ErrDeserialization (Some err)) \<and>
            (\<forall>pre post. t = pre @ b64DecodeBytes_call s (Inl err) # post \<longrightarrow> post = [])"
    if m: "b64DecodeBytes_call s (Inl err) \<in> set t" for s err
  proof -
    have f: "failed (b64DecodeBytes_call s (Inl err))"
      by (simp add: failed_def left_error_def Wrap_def)
    from failed_is_last [OF assms m f]
    have "r = Some (WithCode ErrDeserialization (Some err))"
      by (simp add: left_error_def Wrap_def)
    moreover have "\<forall>pre post. t = pre @ b64DecodeBytes_call s (Inl err) # post \<longrightarrow> post = []"
      using failed_ends [OF assms _ f] by blast
    ultimately show ?thesis by simp
  qed
  have b: "(\<exists>n. decoded t = map PublicKey (take n convs)) \<and>
            ((\<exists>c\<in>set convs. \<exists>err. b64DecodeBytes E (PublicKey c) = Inl err) \<longrightarrow> r \<noteq> None)"
    if m: "getAllConversations_call (Inr convs) \<in> set t" for convs
  proof -
    from listed_run [OF assms m] obtain cfg :: InstanceGetConfiguration_Reply and pre w4 tl where
      t: "t = pre @ getAllConversations_call (Inr convs) # tl" and d: "decoded pre = []"
      and l: "replayConversations E (AccountGroupPK cfg) convs w4 = (r, w', tl)"
      by blast
    from decoded_replayConversations [OF l] obtain n where
      n: "decoded tl = map PublicKey (take n convs)"
      and g: "r = None \<longrightarrow> (\<forall>c\<in>set convs. \<exists>g. b64DecodeBytes E (PublicKey c) = Inr g)"
      by blast
    have "decoded t = map PublicKey (take n convs)" using t d n by simp
    then have "\<exists>n. decoded t = map PublicKey (take n convs)" ..
    moreover have "(\<exists>c\<in>set convs. \<exists>err. b64DecodeBytes E (PublicKey c) = Inl err) \<longrightarrow> r \<noteq> None"
    proof (intro impI notI)
      assume "\<exists>c\<in>set convs. \<exists>err. b64DecodeBytes E (PublicKey c) = Inl err"
      then obtain c err where c: "c \<in> set convs" "b64DecodeBytes E (PublicKey c) = Inl err" by blast
      assume "r = None"
      with g c(1) obtain k where "b64DecodeBytes E (PublicKey c) = Inr k" by blast
      with c(2) show False by simp
    qed
    ultimately show ?thesis by simp
  qed
  from a b show ?thesis by blast
qed

theorem C9_witness:
  "b64DecodeBytes_call ''!!'' (Inl (Foreign ''illegal base64 data''))
     \<in> set (events (replayLogsToDB bad_key False)) \<and>
   fst (replayLogsToDB bad_key False) =
     Some (WithCode ErrDeserialization (Some (Foreign ''illegal base64 data''))) \<and>
   last (events (replayLogsToDB bad_key False)) =
     b64DecodeBytes_call ''!!'' (Inl (Foreign ''illegal base64 data'')) \<and>
   decoded (events (replayLogsToDB bad_key False)) = [''AQ'', ''Ag'', ''!!'']"
  using C9_bad_key_aborts_the_replay [OF run_bad_key]
  by (simp add: run_bad_key)

text \<open>
  C10, as amended.  Take a run in which the configuration lookup returned \<open>cfg\<close> and the
  store returned a list none of whose keys decodes to the home group's key.  Then the
  run holds no call of a message drain for the home group (its message stream is not
  opened, nothing is received from it, no message of it is applied); and the replay
  returns success exactly when none of the calls it made failed.
\<close>

theorem C10_home_messages_only_when_listed:
  assumes "replayLogsToDB E w = (r, w', t)" and "InstanceGetConfiguration_call (Inr cfg) \<in> set t"
    and "getAllConversations_call (Inr convs) \<in> set t"
    and "\<forall>c\<in>set convs. b64DecodeBytes E (PublicKey c) \<noteq> Inr (AccountGroupPK cfg)"
  shows "(\<forall>e\<in>set t. kind_of e = MessageDrain \<longrightarrow> group_of e \<noteq> Some (AccountGroupPK cfg)) \<and>
         (r = None \<longleftrightarrow> (\<forall>e\<in>set t. \<not> failed e))"
proof -
  from listed_run [OF assms(1,3)] obtain cfg' pre w4 tl where
    t: "t = pre @ getAllConversations_call (Inr convs) # tl"
    and c: "InstanceGetConfiguration_call (Inr cfg') \<in> set pre"
    and k: "\<forall>e\<in>set pre. kind_of e \<noteq> MessageDrain"
    and l: "replayConversations E (AccountGroupPK cfg') convs w4 = (r, w', tl)" by blast
  from c t have "InstanceGetConfiguration_call (Inr cfg') \<in> set t" by simp
  with assms(1,2) have "cfg' = cfg" by (rule configuration_unique)
  have "\<forall>e\<in>set tl. group_of e \<noteq> Some (AccountGroupPK cfg)"
    using loop_call_replayConversations [OF l] assms(4) \<open>cfg' = cfg\<close>
    unfolding loop_call_def by blast
  with t k have a: "\<forall>e\<in>set t. kind_of e = MessageDrain \<longrightarrow> group_of e \<noteq> Some (AccountGroupPK cfg)"
    by auto
  have ne: "t \<noteq> []" using t by simp
  from replayLogsToDB_result [OF assms(1)]
  have bl: "\<forall>e\<in>set (butlast t). \<not> failed e" and r: "r = replay_error (last t)" by simp_all
  have b: "r = None \<longleftrightarrow> (\<forall>e\<in>set t. \<not> failed e)"
  proof
    assume "r = None"
    with assms(1) have "replayLogsToDB E w = (None, w', t)" by simp
    then show "\<forall>e\<in>set t. \<not> failed e" by (rule succeeded_no_failure)
  next
    assume "\<forall>e\<in>set t. \<not> failed e"
    with ne have "\<not> failed (last t)" by simp
    with r show "r = None" by (simp add: failed_def)
  qed
  from a b show ?thesis by blast
qed

theorem C10_witness:
  "InstanceGetConfiguration_call (Inr \<lparr>AccountGroupPK = [1]\<rparr>)
     \<in> set (events (replayLogsToDB home_not_listed False)) \<and>
   getAllConversations_call (Inr [\<lparr>PublicKey = ''Ag''\<rparr>, \<lparr>PublicKey = ''Aw''\<rparr>])
     \<in> set (events (replayLogsToDB home_not_listed False)) \<and>
   b64DecodeBytes home_not_listed ''Ag'' = Inr [2] \<and>
   b64DecodeBytes home_not_listed ''Aw'' = Inr [3] \<and>
   fst (replayLogsToDB home_not_listed False) = None \<and>
   msg_opened [1] (events (replayLogsToDB home_not_listed False)) = []"
  using C10_home_messages_only_when_listed
    [where cfg = "\<lparr>AccountGroupPK = [1]\<rparr>"
       and convs = "[\<lparr>PublicKey = ''Ag''\<rparr>, \<lparr>PublicKey = ''Aw''\<rparr>]", OF run_home_not_listed]
  by (simp add: run_home_not_listed b64DecodeBytes_home_not_listed b64dec_def)

text \<open>
  C10 as stated has every such run complete successfully.  With a store that lists the
  groups \<open>[2]\<close> and \<open>[3]\<close> only and a protocol client that refuses to activate a group,
  the list does not hold the home group \<open>[1]\<close> and the replay returns the activation
  error.
\<close>

theorem C10_counterexample:
  "getAllConversations_call (Inr [\<lparr>PublicKey = ''Ag''\<rparr>, \<lparr>PublicKey = ''Aw''\<rparr>])
     \<in> set (events (replayLogsToDB activation_refused False)) \<and>
   InstanceGetConfiguration_call (Inr \<lparr>AccountGroupPK = [1]\<rparr>)
     \<in> set (events (replayLogsToDB activation_refused False)) \<and>
   b64DecodeBytes activation_refused ''Ag'' = Inr [2] \<and>
   b64DecodeBytes activation_refused ''Aw'' = Inr [3] \<and>
   fst (replayLogsToDB activation_refused False) =
     Some (WithCode ErrGroupActivate (Some (Foreign ''refused'')))"
  by (simp add: run_activation_refused b64DecodeBytes_activation_refused b64dec_def)

text \<open>
  C8.  Take a run in which the configuration lookup returned \<open>cfg\<close> and a call \<open>e\<close> of the
  metadata drain or of the message drain of a group \<open>g\<close> other than the home group
  failed.  Then the replay returns the error of that call; the run ends with the
  successful \<^verbatim>\<open>ActivateGroup\<close> of \<open>g\<close> followed by nothing but calls of the drains of \<open>g\<close>,
  so no \<^verbatim>\<open>DeactivateGroup\<close> follows the activation and \<open>g\<close> is the one group left in the
  activated state; and when \<open>g\<close> was not activated earlier in the run, the run holds no
  \<^verbatim>\<open>DeactivateGroup\<close> call for \<open>g\<close> at all.
\<close>

theorem C8_failed_drain_leaves_group_activated:
  assumes "replayLogsToDB E w = (r, w', t)" and "InstanceGetConfiguration_call (Inr cfg) \<in> set t"
    and "e \<in> set t" and "failed e" and "kind_of e \<noteq> Setup" and "group_of e = Some g"
    and "g \<noteq> AccountGroupPK cfg"
  shows "r = replay_error e \<and> r \<noteq> None \<and> activated t = [g] \<and>
         (\<exists>pre post. t = pre @ ActivateGroup_call g True None # post \<and>
            (\<forall>x\<in>set post. kind_of x \<noteq> Setup \<and> group_of x = Some g) \<and>
            (ActivateGroup_call g True None \<notin> set pre \<longrightarrow>
               (\<forall>x. DeactivateGroup_call g x \<notin> set t)))"
proof -
  from failed_is_last [OF assms(1,3,4)] have l: "last t = e" and r: "r = replay_error e" by simp_all
  from assms(4) r have n: "r \<noteq> None" by (simp add: failed_def)
  from failing_drain_replayLogsToDB [OF assms(1,2)] l assms(5,6,7) obtain pre post where
    t: "t = pre @ ActivateGroup_call g True None # post"
    and p: "\<forall>x\<in>set post. kind_of x \<noteq> Setup \<and> group_of x = Some g"
    and a: "activated_from [] pre = []" and d: "deact_after_act g pre" by auto
  have q: "\<forall>x\<in>set post. quiet x" using p by (simp add: quiet_def)
  have act: "activated t = [g]"
    using t a quiet_activated [OF q, of "[g]"] by (simp add: activated_def)
  have np: "DeactivateGroup_call g x \<notin> set post" for x using p by auto
  have "ActivateGroup_call g True None \<notin> set pre \<longrightarrow> (\<forall>x. DeactivateGroup_call g x \<notin> set t)"
    using d t np by (auto simp: deact_after_act_def)
  with t p have "\<exists>pre post. t = pre @ ActivateGroup_call g True None # post \<and>
            (\<forall>x\<in>set post. kind_of x \<noteq> Setup \<and> group_of x = Some g) \<and>
            (ActivateGroup_call g True None \<notin> set pre \<longrightarrow>
               (\<forall>x. DeactivateGroup_call g x \<notin> set t))" by blast
  with r n act show ?thesis by simp
qed

theorem C8_witness:
  "InstanceGetConfiguration_call (Inr \<lparr>AccountGroupPK = [1]\<rparr>)
     \<in> set (events (replayLogsToDB broken_metadata_stream False)) \<and>
   metaList_Recv [2] (Inl (Foreign ''connection reset''))
     \<in> set (events (replayLogsToDB broken_metadata_stream False)) \<and>
   failed (metaList_Recv [2] (Inl (Foreign ''connection reset''))) \<and>
   fst (replayLogsToDB broken_metadata_stream False) =
     Some (WithCode ErrReplayProcessGroupMetadata
            (Some (WithCode ErrEventListMetadata (Some (Foreign ''connection reset''))))) \<and>
   activated (events (replayLogsToDB broken_metadata_stream False)) = [[2]] \<and>
   DeactivateGroup_call [2] None \<notin> set (events (replayLogsToDB broken_metadata_stream False))"
  using C8_failed_drain_leaves_group_activated
    [where cfg = "\<lparr>AccountGroupPK = [1]\<rparr>" and g = "[2]"
       and e = "metaList_Recv [2] (Inl (Foreign ''connection reset''))",
     OF run_broken_metadata_stream]
  by (simp add: run_broken_metadata_stream failed_def wrapped_def recv_error_def Wrap_def
        activated_def)

text \<open>
  C4.  Take a run in which a receive on the metadata stream of a group \<open>g\<close> returns a
  transport error \<open>x\<close>, an error other than the clean end of the stream.  Then the replay
  returns the metadata-replay error around the list error around \<open>x\<close>, and the failing
  receive is the last call of the run: nothing is done afterwards, for \<open>g\<close> or for a later
  group.  The stream that failed is the one the run opened last for \<open>g\<close>; it delivered the
  items \<open>ms\<close> and then \<open>x\<close>.  After its opening the run holds calls of the metadata drain
  of \<open>g\<close> only, so no message stream is opened and no message is applied, and the items
  handed to \<^verbatim>\<open>handleMetadataEvent\<close> after the opening are exactly \<open>ms\<close>: the handler is
  called once for each of the items delivered before the error.  When the run did not
  open the metadata stream of \<open>g\<close> before (as when the store lists the group once), the
  items applied for \<open>g\<close> in the whole run are exactly \<open>ms\<close> and the run holds no call of a
  message drain (no \<^verbatim>\<open>GroupMessageList\<close>, receive, \<^verbatim>\<open>Unmarshal\<close> or \<^verbatim>\<open>handleAppMessage\<close>)
  for \<open>g\<close> at all.
\<close>

theorem C4_transport_error_ends_the_replay:
  assumes "replayLogsToDB E w = (r, w', t)" and "metaList_Recv g (Inl x) \<in> set t" and "x \<noteq> EOF"
  shows "r = Some (WithCode ErrReplayProcessGroupMetadata
                     (Some (WithCode ErrEventListMetadata (Some x)))) \<and>
         (\<forall>pre post. t = pre @ metaList_Recv g (Inl x) # post \<longrightarrow> post = []) \<and>
         (\<exists>pre ms post. t = pre @ GroupMetadataList_call g True (Inr (ms, x)) # post \<and>
            md_applied g post = ms \<and> md_opened g post = [] \<and>
            (\<forall>e\<in>set post. kind_of e = MetadataDrain \<and> group_of e = Some g) \<and>
            (md_opened g pre = [] \<longrightarrow>
               md_applied g t = ms \<and>
               (\<forall>e\<in>set t. kind_of e = MessageDrain \<longrightarrow> group_of e \<noteq> Some g)))"
proof -
  let ?e = "metaList_Recv g (Inl x)"
  have f: "failed ?e"
    using assms(3) by (simp add: failed_def wrapped_def recv_error_def Wrap_def)
  from failed_is_last [OF assms(1,2) f]
  have l: "last t = ?e"
    and r: "r = Some (WithCode ErrReplayProcessGroupMetadata
                     (Some (WithCode ErrEventListMetadata (Some x))))"
    using assms(3) by (simp_all add: wrapped_def recv_error_def Wrap_def)
  have e: "\<forall>pre post. t = pre @ ?e # post \<longrightarrow> post = []"
    using failed_ends [OF assms(1) _ f] by blast
  have ne: "t \<noteq> []" using assms(2) by auto
  from md_tail_replayLogsToDB [OF assms(1), of g] ne l obtain pre ms post where
    t: "t = pre @ GroupMetadataList_call g True (Inr (ms, x)) # post"
    and a: "md_applied g post = ms" and o: "md_opened g post = []"
    and k: "\<forall>e\<in>set post. kind_of e = MetadataDrain \<and> group_of e = Some g"
    unfolding md_tail_def by blast
  have tot: "md_applied g t = ms \<and> (\<forall>e\<in>set t. kind_of e = MessageDrain \<longrightarrow> group_of e \<noteq> Some g)"
    if p: "md_opened g pre = []"
  proof -
    have "md_opened g t = [Inr (ms, x)]" using t p o by simp
    from md_ok_opened(2) [OF md_ok_replayLogsToDB [OF assms(1)] this assms(2)]
    have "md_applied g t = ms" by simp
    moreover have "no_msg g pre"
      using assms(1) t p by (rule no_message_drain_before_metadata)
    then have "\<forall>e\<in>set t. kind_of e = MessageDrain \<longrightarrow> group_of e \<noteq> Some g"
      using t k by (auto simp: no_msg_def)
    ultimately show ?thesis by simp
  qed
  from t a o k tot have "\<exists>pre ms post. t = pre @ GroupMetadataList_call g True (Inr (ms, x)) # post \<and>
            md_applied g post = ms \<and> md_opened g post = [] \<and>
            (\<forall>e\<in>set post. kind_of e = MetadataDrain \<and> group_of e = Some g) \<and>
            (md_opened g pre = [] \<longrightarrow>
               md_applied g t = ms \<and>
               (\<forall>e\<in>set t. kind_of e = MessageDrain \<longrightarrow> group_of e \<noteq> Some g))" by blast
  with r e show ?thesis by blast
qed

text \<open>
  The metadata stream of the group \<open>[2]\<close> breaks after its one item: that item is applied
  and the replay ends with the failed receive.
\<close>

theorem C4_witness:
  "metaList_Recv [2] (Inl (Foreign ''connection reset''))
     \<in> set (events (replayLogsToDB broken_metadata_stream False)) \<and>
   Foreign ''connection reset'' \<noteq> EOF \<and>
   fst (replayLogsToDB broken_metadata_stream False) =
     Some (WithCode ErrReplayProcessGroupMetadata
            (Some (WithCode ErrEventListMetadata (Some (Foreign ''connection reset''))))) \<and>
   last (events (replayLogsToDB broken_metadata_stream False)) =
     metaList_Recv [2] (Inl (Foreign ''connection reset'')) \<and>
   md_opened [2] (events (replayLogsToDB broken_metadata_stream False)) =
     [Inr ([[20]], Foreign ''connection reset'')] \<and>
   md_applied [2] (events (replayLogsToDB broken_metadata_stream False)) = [[20]] \<and>
   msg_opened [2] (events (replayLogsToDB broken_metadata_stream False)) = []"
  using C4_transport_error_ends_the_replay
    [where g = "[2]" and x = "Foreign ''connection reset''", OF run_broken_metadata_stream]
  by (simp add: run_broken_metadata_stream)

text \<open>
  C5.  Take a run in which \<^verbatim>\<open>proto.Unmarshal\<close> fails, with the error \<open>err\<close>, on a payload \<open>p\<close>
  received from the message stream of a group \<open>g\<close>.  Then the replay returns the
  message-replay error around a deserialization error (not the list error
  \<open>ErrEventListMessage\<close> of a transport failure) around \<open>err\<close>, and the failing call is the
  last call of the run.  The payload is that of an item \<open>ms ! i\<close> of the stream the run
  opened last for \<open>g\<close>, the first item of that stream that does not parse.  After the
  opening the run holds calls of the message drain of \<open>g\<close> only; the messages handed to
  \<^verbatim>\<open>handleAppMessage\<close> after it are exactly the \<open>i\<close> items before the failing one, and the
  messages received are those and the failing one: no later item is received or
  applied.  When the run did not open the message stream of \<open>g\<close> before (as when the
  store lists the group once), these are the messages applied and received for \<open>g\<close> in
  the whole run.
\<close>

theorem C5_deserialization_failure_stops_the_drain:
  assumes "replayLogsToDB E w = (r, w', t)" and "Unmarshal_call g p (Inl err) \<in> set t"
  shows "r = Some (WithCode ErrReplayProcessGroupMessage
                     (Some (WithCode ErrDeserialization (Some err)))) \<and>
         (\<forall>pre post. t = pre @ Unmarshal_call g p (Inl err) # post \<longrightarrow> post = []) \<and>
         (\<exists>pre ms fin post i. t = pre @ GroupMessageList_call g True (Inr (ms, fin)) # post \<and>
            i < length ms \<and> Message (ms ! i) = p \<and> Unmarshal E p = Inl err \<and>
            (\<forall>m\<in>set (take i ms). \<exists>a. Unmarshal E (Message m) = Inr a) \<and>
            msg_applied g post = take i ms \<and> msg_received g post = take (Suc i) ms \<and>
            msg_opened g post = [] \<and>
            (\<forall>e\<in>set post. kind_of e = MessageDrain \<and> group_of e = Some g) \<and>
            (msg_opened g pre = [] \<longrightarrow>
               msg_applied g t = take i ms \<and> msg_received g t = take (Suc i) ms))"
proof -
  let ?e = "Unmarshal_call g p (Inl err)"
  have f: "failed ?e"
    by (simp add: failed_def wrapped_def left_error_def Wrap_def)
  from failed_is_last [OF assms(1,2) f]
  have l: "last t = ?e"
    and r: "r = Some (WithCode ErrReplayProcessGroupMessage
                     (Some (WithCode ErrDeserialization (Some err))))"
    by (simp_all add: wrapped_def left_error_def Wrap_def)
  have e: "\<forall>pre post. t = pre @ ?e # post \<longrightarrow> post = []"
    using failed_ends [OF assms(1) _ f] by blast
  have ne: "t \<noteq> []" using assms(2) by auto
  from msg_tail_replayLogsToDB [OF assms(1), of g] ne l obtain pre ms fin post i where
    t: "t = pre @ GroupMessageList_call g True (Inr (ms, fin)) # post"
    and i: "i < length ms" "Message (ms ! i) = p" "Unmarshal E p = Inl err"
      "\<forall>m\<in>set (take i ms). \<exists>a. Unmarshal E (Message m) = Inr a"
    and a: "msg_applied g post = take i ms" "msg_received g post = take (Suc i) ms"
    and o: "msg_opened g post = []"
    and k: "\<forall>e\<in>set post. kind_of e = MessageDrain \<and> group_of e = Some g"
    unfolding msg_tail_def by blast
  have tot: "msg_applied g t = take i ms \<and> msg_received g t = take (Suc i) ms"
    if p: "msg_opened g pre = []"
  proof -
    have "no_msg g pre" using assms(1) t p by (rule no_msg_before_open)
    then have "msg_applied g pre = []" "msg_received g pre = []"
      by (simp_all add: no_msg_applied no_msg_received)
    with t a show ?thesis by simp
  qed
  from t i a o k tot have "\<exists>pre ms fin post i. t = pre @ GroupMessageList_call g True (Inr (ms, fin)) # post \<and>
            i < length ms \<and> Message (ms ! i) = p \<and> Unmarshal E p = Inl err \<and>
            (\<forall>m\<in>set (take i ms). \<exists>a. Unmarshal E (Message m) = Inr a) \<and>
            msg_applied g post = take i ms \<and> msg_received g post = take (Suc i) ms \<and>
            msg_opened g post = [] \<and>
            (\<forall>e\<in>set post. kind_of e = MessageDrain \<and> group_of e = Some g) \<and>
            (msg_opened g pre = [] \<longrightarrow>
               msg_applied g t = take i ms \<and> msg_received g t = take (Suc i) ms)" by blast
  with r e show ?thesis by blast
qed

text \<open>
  The second of the three messages of the group \<open>[2]\<close> does not parse: the first message
  is applied, the second is received, the third is neither.
\<close>

theorem C5_witness:
  "Unmarshal_call [2] [255] (Inl (Foreign ''cannot parse''))
     \<in> set (events (replayLogsToDB malformed_message False)) \<and>
   fst (replayLogsToDB malformed_message False) =
     Some (WithCode ErrReplayProcessGroupMessage
            (Some (WithCode ErrDeserialization (Some (Foreign ''cannot parse''))))) \<and>
   last (events (replayLogsToDB malformed_message False)) =
     Unmarshal_call [2] [255] (Inl (Foreign ''cannot parse'')) \<and>
   msg_opened [2] (events (replayLogsToDB malformed_message False)) =
     [Inr ([\<lparr>Message = [8, 1]\<rparr>, \<lparr>Message = [255]\<rparr>, \<lparr>Message = [8, 3]\<rparr>], EOF)] \<and>
   msg_applied [2] (events (replayLogsToDB malformed_message False)) = [\<lparr>Message = [8, 1]\<rparr>] \<and>
   msg_received [2] (events (replayLogsToDB malformed_message False)) =
     [\<lparr>Message = [8, 1]\<rparr>, \<lparr>Message = [255]\<rparr>]"
  using C5_deserialization_failure_stops_the_drain
    [where g = "[2]" and p = "[255]" and err = "Foreign ''cannot parse''",
     OF run_malformed_message]
  by (simp add: run_malformed_message)

text \<open>
  C3, as amended.  Take a run in which the configuration lookup returned a reply \<open>cfg\<close>,
  whose account group key is the home group.  Then, whatever the store does, the run
  calls \<^verbatim>\<open>addAccount\<close> exactly once, right after the lookup, with the base64 form of the
  home group's key and the empty name.  When the store accepts the call, exactly one
  account is added in the run.  When the store refuses it, no account is added, the
  refused call is the last call of the run and the replay returns the store-write error
  around the store's error.  Every call of \<^verbatim>\<open>handleMetadataEvent\<close> comes after the one
  account was added; and the run holds no \<^verbatim>\<open>ActivateGroup\<close> and no \<^verbatim>\<open>DeactivateGroup\<close>
  call for the home group.
\<close>

theorem C3_one_account_for_the_home_group:
  assumes "replayLogsToDB E w = (r, w', t)" and "InstanceGetConfiguration_call (Inr cfg) \<in> set t"
  shows "(\<exists>ra rest. t = InstanceGetConfiguration_call (Inr cfg) #
              addAccount_call (b64EncodeBytes E (AccountGroupPK cfg)) [] ra # rest \<and>
            account_calls t = [(b64EncodeBytes E (AccountGroupPK cfg), [], ra)] \<and>
            (case ra of
               None \<Rightarrow> accounts_added t = [(b64EncodeBytes E (AccountGroupPK cfg), [])]
             | Some err \<Rightarrow>
                 accounts_added t = [] \<and> rest = [] \<and> r = Some (WithCode ErrDBWrite (Some err)))) \<and>
         (\<forall>pre g m x post. t = pre @ handleMetadataEvent_call g m x # post \<longrightarrow>
            accounts_added pre = [(b64EncodeBytes E (AccountGroupPK cfg), [])]) \<and>
         (\<forall>l x. ActivateGroup_call (AccountGroupPK cfg) l x \<notin> set t) \<and>
         (\<forall>x. DeactivateGroup_call (AccountGroupPK cfg) x \<notin> set t)"
proof -
  let ?pk = "b64EncodeBytes E (AccountGroupPK cfg)"
  from configured_run [OF assms] obtain ra rest where
    t: "t = InstanceGetConfiguration_call (Inr cfg) # addAccount_call ?pk [] ra # rest"
    and l: "\<forall>e\<in>set rest. later_call E (AccountGroupPK cfg) e" by blast
  have none: "accounts_added s = []" if "set s \<subseteq> set rest" for s
    using that l later_call_facts(1) [of E "AccountGroupPK cfg"] by (intro accounts_added_none) blast
  have "account_calls rest = []"
    using l later_call_no_account [of E "AccountGroupPK cfg"] by (intro account_calls_none) blast
  then have calls: "account_calls t = [(?pk, [], ra)]" using t by simp
  have refused: "rest = [] \<and> r = Some (WithCode ErrDBWrite (Some err))" if "ra = Some err" for err
  proof -
    have f: "failed (addAccount_call ?pk [] (Some err))"
      by (simp add: failed_def wrapped_def Wrap_def)
    have "t = [InstanceGetConfiguration_call (Inr cfg)] @ addAccount_call ?pk [] (Some err) # rest"
      using t that by simp
    from failed_ends [OF assms(1) this f] show ?thesis by (simp add: wrapped_def Wrap_def)
  qed
  have added: "case ra of
               None \<Rightarrow> accounts_added t = [(?pk, [])]
             | Some err \<Rightarrow>
                 accounts_added t = [] \<and> rest = [] \<and> r = Some (WithCode ErrDBWrite (Some err))"
  proof (cases ra)
    case None
    with t none [of rest] show ?thesis by simp
  next
    case (Some err)
    with refused [OF Some] t show ?thesis by simp
  qed
  have a: "\<exists>ra rest. t = InstanceGetConfiguration_call (Inr cfg) # addAccount_call ?pk [] ra # rest \<and>
            account_calls t = [(?pk, [], ra)] \<and>
            (case ra of
               None \<Rightarrow> accounts_added t = [(?pk, [])]
             | Some err \<Rightarrow>
                 accounts_added t = [] \<and> rest = [] \<and> r = Some (WithCode ErrDBWrite (Some err)))"
    using t calls added by blast
  have b: "\<forall>pre g m x post. t = pre @ handleMetadataEvent_call g m x # post \<longrightarrow>
            accounts_added pre = [(?pk, [])]"
  proof (intro allI impI)
    fix pre g m x post
    assume s: "t = pre @ handleMetadataEvent_call g m x # post"
    with t have "InstanceGetConfiguration_call (Inr cfg) # addAccount_call ?pk [] ra # rest =
          pre @ handleMetadataEvent_call g m x # post" by simp
    from split_after_two [OF this] obtain pre' where
      p: "pre = InstanceGetConfiguration_call (Inr cfg) # addAccount_call ?pk [] ra # pre'"
      and rs: "rest = pre' @ handleMetadataEvent_call g m x # post"
      by auto
    from rs have "rest \<noteq> []" by simp
    with refused have "ra = None" by (cases ra) simp_all
    moreover from rs have "set pre' \<subseteq> set rest" by auto
    ultimately show "accounts_added pre = [(?pk, [])]" using p none by simp
  qed
  have "ActivateGroup_call (AccountGroupPK cfg) l x \<notin> set rest" for l x
    using l later_call_facts(3) [of E "AccountGroupPK cfg"] by blast
  then have c: "\<forall>l x. ActivateGroup_call (AccountGroupPK cfg) l x \<notin> set t"
    using t by simp
  have "DeactivateGroup_call (AccountGroupPK cfg) x \<notin> set rest" for x
    using l later_call_facts(4) [of E "AccountGroupPK cfg"] by blast
  then have d: "\<forall>x. DeactivateGroup_call (AccountGroupPK cfg) x \<notin> set t"
    using t by simp
  from a b c d show ?thesis by blast
qed

text \<open>
  In the scenario of the spec the store accepts the account: one account is added, before
  the first metadata item is applied.
\<close>

theorem C3_witness:
  "InstanceGetConfiguration_call (Inr \<lparr>AccountGroupPK = [1]\<rparr>)
     \<in> set (events (replayLogsToDB scenario False)) \<and>
   account_calls (events (replayLogsToDB scenario False)) = [(''AQ'', [], None)] \<and>
   accounts_added (events (replayLogsToDB scenario False)) = [(''AQ'', [])] \<and>
   accounts_added (take 5 (events (replayLogsToDB scenario False))) = [(''AQ'', [])] \<and>
   events (replayLogsToDB scenario False) ! 5 = handleMetadataEvent_call [1] [10] None \<and>
   ActivateGroup_call [1] True None \<notin> set (events (replayLogsToDB scenario False)) \<and>
   DeactivateGroup_call [1] None \<notin> set (events (replayLogsToDB scenario False))"
  using C3_one_account_for_the_home_group
    [where cfg = "\<lparr>AccountGroupPK = [1]\<rparr>", OF run_scenario]
  by (simp add: run_scenario)

text \<open>
  C3 as stated has the replay create the account record whatever the state of the
  store.  With a store that refuses the write the replay calls \<^verbatim>\<open>addAccount\<close> once, no
  account is added, and the replay returns the store-write error.
\<close>

theorem C3_counterexample:
  "InstanceGetConfiguration_call (Inr \<lparr>AccountGroupPK = [1]\<rparr>)
     \<in> set (events (replayLogsToDB store_full False)) \<and>
   account_calls (events (replayLogsToDB store_full False)) =
     [(''AQ'', [], Some (Foreign ''disk full''))] \<and>
   accounts_added (events (replayLogsToDB store_full False)) = [] \<and>
   fst (replayLogsToDB store_full False) =
     Some (WithCode ErrDBWrite (Some (Foreign ''disk full'')))"
  by (simp add: run_store_full account_calls_def)



end
